theory Spec2Isabelle
  imports Main
begin

section \<open>Python strings\<close>

text \<open>
  Strings are lists of characters. Only the operations the scripts use are modelled:
  \<^verbatim>\<open>str.lower\<close> (on the ASCII letters; every other character is left as it is),
  \<^verbatim>\<open>str.startswith\<close>, \<^verbatim>\<open>str.endswith\<close>, the substring test \<^verbatim>\<open>sub in s\<close>,
  \<^verbatim>\<open>str.replace\<close> and \<^verbatim>\<open>sep.join\<close>.
\<close>

definition lower_char :: "char \<Rightarrow> char" where
  "lower_char c =
     (case map_of (zip ''ABCDEFGHIJKLMNOPQRSTUVWXYZ'' ''abcdefghijklmnopqrstuvwxyz'') c of
        Some d \<Rightarrow> d
      | None \<Rightarrow> c)"

definition lower :: "string \<Rightarrow> string" where
  "lower s = map lower_char s"

definition startswith :: "string \<Rightarrow> string \<Rightarrow> bool" where
  "startswith s p = (take (length p) s = p)"

definition endswith :: "string \<Rightarrow> string \<Rightarrow> bool" where
  "endswith s p = (length p \<le> length s \<and> drop (length s - length p) s = p)"

text \<open>\<open>str_in sub s\<close> is Python's \<^verbatim>\<open>sub in s\<close>: \<open>sub\<close> occurs in \<open>s\<close> as a contiguous block.\<close>

fun str_in :: "string \<Rightarrow> string \<Rightarrow> bool" where
  "str_in sub [] = (sub = [])"
| "str_in sub (c # cs) = (startswith (c # cs) sub \<or> str_in sub cs)"

text \<open>\<^verbatim>\<open>s.replace(old, new)\<close>: every occurrence, left to right, without overlaps.\<close>

function replace :: "string \<Rightarrow> string \<Rightarrow> string \<Rightarrow> string" where
  "replace s old new =
     (if old = [] then new @ concat (map (\<lambda>c. c # new) s)
      else if s = [] then []
      else if startswith s old then new @ replace (drop (length old) s) old new
      else hd s # replace (tl s) old new)"
  by pat_completeness auto
termination
  by (relation "measure (\<lambda>(s, old, new). length s)") auto

declare replace.simps [simp del]

text \<open>\<^verbatim>\<open>sep.join(xs)\<close>.\<close>

fun join :: "string \<Rightarrow> string list \<Rightarrow> string" where
  "join sep [] = []"
| "join sep [x] = x"
| "join sep (x # y # ys) = x @ sep @ join sep (y # ys)"

section \<open>Paths and directory trees\<close>

text \<open>
  A path is the list of its components (\<^verbatim>\<open>Path.parts\<close>); \<^verbatim>\<open>os.path.join(root, name)\<close>
  and \<^verbatim>\<open>root_path / name\<close> append one component. A directory tree lists, for every
  directory, its subdirectories and the names of its files.
\<close>

type_synonym path = "string list"

datatype tree = Dir (subdirs: "(string \<times> tree) list") (files: "string list")

text \<open>
  \<^verbatim>\<open>os.walk(root)\<close>, top-down: one triple \<^verbatim>\<open>(root, dirs, files)\<close> for the directory itself,
  then the triples of each subdirectory in turn.
\<close>

type_synonym walk_entry = "path \<times> string list \<times> string list"

fun os_walk :: "path \<Rightarrow> tree \<Rightarrow> walk_entry list" where
  "os_walk root (Dir ds fs) =
     (root, map fst ds, fs) # concat (map (\<lambda>(n, t). os_walk (root @ [n]) t) ds)"

section \<open>rename\_folders.py\<close>

text \<open>The label \<^verbatim>\<open>" -> "\<close> of the source is written with the Unicode arrow U+2192 (three bytes).\<close>

definition arrow :: string where
  "arrow = [CHR '' '', CHR 0xE2, CHR 0x86, CHR 0x92, CHR '' '']"

text \<open>
  The body of the inner loop of \<^verbatim>\<open>find_folders_to_rename\<close> for one directory name:
  \<open>new_name_and_type\<close> is the \<^verbatim>\<open>if/elif\<close> chain that sets \<^verbatim>\<open>new_name\<close> and \<^verbatim>\<open>rename_type\<close>
  (\<open>None\<close> when both stay \<^verbatim>\<open>None\<close>), \<open>rename_candidate\<close> adds the final test
  \<^verbatim>\<open>if new_name and new_name != dir_name\<close>.
\<close>

definition new_name_and_type :: "string \<Rightarrow> (string \<times> string) option" where
  "new_name_and_type dir_name =
     (if str_in ''tumor'' (lower dir_name) \<or> str_in ''tumour'' (lower dir_name) then
        (if str_in ''_'' dir_name
            \<and> (str_in ''tumor'' (lower dir_name) \<or> str_in ''tumour'' (lower dir_name))
         then Some (''tumour'', dir_name @ arrow @ ''tumour'')
         else
           (let n0 = dir_name;
                n1 = (if str_in ''Tumor'' dir_name then replace n0 ''Tumor'' ''Tumour'' else n0);
                n2 = (if str_in ''tumor'' dir_name then replace n1 ''tumor'' ''tumour'' else n1);
                n3 = (if str_in ''TUMOR'' dir_name then replace n2 ''TUMOR'' ''TUMOUR'' else n2)
            in Some (n3, ''tumor'' @ arrow @ ''tumour'')))
      else if str_in ''healthy'' (lower dir_name) \<and> lower dir_name \<noteq> ''healthy'' then
        (if str_in ''_'' dir_name \<and> str_in ''healthy'' (lower dir_name)
         then Some (''healthy'', dir_name @ arrow @ ''healthy'')
         else Some (''healthy'', ''healthy'' @ arrow @ ''healthy''))
      else None)"

definition rename_candidate :: "path \<Rightarrow> string \<Rightarrow> (path \<times> path \<times> string) option" where
  "rename_candidate root dir_name =
     (case new_name_and_type dir_name of
        None \<Rightarrow> None
      | Some (new_name, rename_type) \<Rightarrow>
          if new_name \<noteq> [] \<and> new_name \<noteq> dir_name
          then Some (root @ [dir_name], root @ [new_name], rename_type)
          else None)"

definition find_folders_to_rename :: "walk_entry list \<Rightarrow> (path \<times> path \<times> string) list" where
  "find_folders_to_rename walk =
     concat (map (\<lambda>(root, dirs, files). List.map_filter (rename_candidate root) dirs) walk)"

text \<open>The names the scan looks at: those that contain one of the class words, in any case.\<close>

definition is_class_name :: "string \<Rightarrow> bool" where
  "is_class_name d =
     (str_in ''tumor'' (lower d) \<or> str_in ''tumour'' (lower d) \<or> str_in ''healthy'' (lower d))"

section \<open>Numbers as text\<close>

text \<open>\<^verbatim>\<open>str(n)\<close> for a natural number and for an integer, in decimal.\<close>

definition digit :: "nat \<Rightarrow> char" where
  "digit d = ''0123456789'' ! d"

function dec :: "nat \<Rightarrow> string" where
  "dec n = (if n < 10 then [digit n] else dec (n div 10) @ [digit (n mod 10)])"
  by pat_completeness auto
termination
  by (relation "measure id") auto

declare dec.simps [simp del]

definition str_int :: "int \<Rightarrow> string" where
  "str_int i = (if i < 0 then CHR ''-'' # dec (nat (- i)) else dec (nat i))"

definition nl :: string where
  "nl = [CHR 0x0A]"

definition dq :: string where
  "dq = [CHR 0x22]"

section \<open>File names\<close>

text \<open>
  \<^verbatim>\<open>os.path.basename\<close> and \<^verbatim>\<open>os.path.join\<close> on POSIX path strings, and
  \<^verbatim>\<open>os.path.splitext\<close> on a file name: the extension starts at the last dot, unless
  only dots come before it.
\<close>

definition basename :: "string \<Rightarrow> string" where
  "basename p = rev (takeWhile (\<lambda>c. c \<noteq> CHR ''/'') (rev p))"

definition os_path_join :: "string \<Rightarrow> string \<Rightarrow> string" where
  "os_path_join a b =
     (if startswith b ''/'' then b
      else if a = [] \<or> endswith a ''/'' then a @ b
      else a @ ''/'' @ b)"

definition splitext :: "string \<Rightarrow> string \<times> string" where
  "splitext name =
     (let ext = rev (takeWhile (\<lambda>c. c \<noteq> CHR ''.'') (rev name));
          dotIndex = length name - length ext - 1
      in if CHR ''.'' \<in> set name \<and> (\<exists>c \<in> set (take dotIndex name). c \<noteq> CHR ''.'')
         then (take dotIndex name, drop dotIndex name)
         else (name, []))"

section \<open>run\_full\_pipeline.py\<close>

text \<open>
  What \<^verbatim>\<open>subprocess.run\<close> does with a child: the child exits with a return code and its
  captured output, or the call raises (with the text of the exception).
\<close>

datatype outcome = Exited int string string | Raised string

text \<open>
  The world the orchestrator runs in. \<open>clock k\<close> is what the \<open>k\<close>-th call of
  \<^verbatim>\<open>datetime.now()\<close> returns, in microseconds; \<open>isoformat\<close> renders a time and \<open>fmt3\<close> a
  duration as \<^verbatim>\<open>f"{d.total_seconds():.3f}"\<close> does. \<open>isfile i\<close> and \<open>subprocess_run i\<close> are
  the answers of \<^verbatim>\<open>os.path.isfile\<close> and of \<^verbatim>\<open>subprocess.run\<close> when step \<open>i\<close> of the list
  asks.
\<close>

record env =
  clock :: "nat \<Rightarrow> int"
  isoformat :: "int \<Rightarrow> string"
  fmt3 :: "int \<Rightarrow> string"
  isfile :: "nat \<Rightarrow> string \<Rightarrow> bool"
  subprocess_run :: "nat \<Rightarrow> string list \<Rightarrow> string option \<Rightarrow> outcome"
  sys_executable :: string
  repo_root :: string

record result =
  command :: "string list"
  status :: string
  return_code :: int
  started_at :: string
  ended_at :: string
  duration_seconds :: int
  stdout :: string
  stderr :: string

text \<open>An entry of \<^verbatim>\<open>SCRIPTS\<close>, with the defaults of \<^verbatim>\<open>step.get\<close> filled in.\<close>

record script_spec =
  sp_script :: string
  sp_args :: "string list"
  sp_confirm :: bool
  sp_confirm_text :: string

record step_entry =
  name :: string
  script :: string
  args :: "string list"
  auto_confirm :: bool
  skipped :: bool
  result :: "result option"
  log_path :: "string option"

text \<open>
  What happens, in the order in which it happens: \<open>Now k\<close> is the \<open>k\<close>-th reading of the
  clock, \<open>Launch i cmd\<close> the call of \<^verbatim>\<open>subprocess.run\<close> for step \<open>i\<close>, and \<open>Finished i oc\<close> the
  return of that call, which waits for the child to exit (or raises).
\<close>

datatype event = Now nat | Launch nat "string list" | Finished nat outcome

text \<open>
  The state of \<^verbatim>\<open>main\<close>: the number of clock readings taken so far, the run summary, the
  log files written (path and text, in order), the report file, the indices of the
  steps for which \<^verbatim>\<open>subprocess.run\<close> was called, in order, and the events so far.
\<close>

record pstate =
  tick :: nat
  run_summary :: "step_entry list"
  log_writes :: "(string \<times> string) list"
  report :: "string option"
  launched :: "nat list"
  trace :: "event list"

text \<open>\<^verbatim>\<open>run_script\<close>: the result it returns and the events of the call, in order.\<close>

definition run_script ::
  "env \<Rightarrow> nat \<Rightarrow> nat \<Rightarrow> string \<Rightarrow> string \<Rightarrow> string list \<Rightarrow> string
     \<Rightarrow> result \<times> event list" where
  "run_script env i t python_exe script_path args_list input_text =
     (let start_time = clock env t;
          cmd = [python_exe, script_path] @ args_list;
          oc = subprocess_run env i cmd (if input_text \<noteq> [] then Some input_text else None);
          (st, out, err, rc) =
            (case oc of
               Exited code so se \<Rightarrow> (if code = 0 then ''success'' else ''failed'', so, se, code)
             | Raised exc \<Rightarrow> (''exception'', [], ''Exception while running: '' @ exc, - 1));
          end_time = clock env (t + 1)
      in (\<lparr>command = cmd, status = st, return_code = rc,
           started_at = isoformat env start_time, ended_at = isoformat env end_time,
           duration_seconds = end_time - start_time, stdout = out, stderr = err\<rparr>,
          [Now t, Launch i cmd, Finished i oc, Now (t + 1)]))"

text \<open>The texts \<^verbatim>\<open>write_step_log\<close> writes to the log file, one per call of \<^verbatim>\<open>f.write\<close>.\<close>

definition step_log_writes :: "env \<Rightarrow> result \<Rightarrow> string list" where
  "step_log_writes env r =
     [''COMMAND: '' @ join '' '' (command r) @ nl,
      ''STARTED: '' @ started_at r @ nl,
      ''ENDED:   '' @ ended_at r @ nl,
      ''DURATION_SECONDS: '' @ fmt3 env (duration_seconds r) @ nl,
      ''STATUS: '' @ status r @ nl,
      ''RETURN_CODE: '' @ str_int (return_code r) @ nl @ nl,
      ''===== STDOUT ====='' @ nl,
      stdout r,
      nl @ nl @ ''===== STDERR ====='' @ nl,
      stderr r,
      nl]"

definition write_step_log :: "env \<Rightarrow> string \<Rightarrow> string \<Rightarrow> result \<Rightarrow> string \<times> string" where
  "write_step_log env log_dir step_id r =
     (os_path_join log_dir (step_id @ ''.log''), concat (step_log_writes env r))"

text \<open>
  The texts \<^verbatim>\<open>write_report\<close> writes for one step, one per call of \<^verbatim>\<open>f.write\<close>. \<^verbatim>\<open>main\<close>
  sets \<^verbatim>\<open>result\<close> and \<^verbatim>\<open>log_path\<close> of every entry it does not mark as skipped; an entry
  without them is given no body here.
\<close>

definition step_report_writes :: "env \<Rightarrow> step_entry \<Rightarrow> string list" where
  "step_report_writes env step =
     [replicate 80 (CHR ''-'') @ nl,
      ''Step: '' @ name step @ nl,
      ''Script: '' @ script step @ nl,
      ''Args: '' @ (if args step \<noteq> [] then join '' '' (args step) else ''(none)'') @ nl] @
     (if skipped step then [''Status: SKIPPED (script not found)'' @ nl, nl]
      else case (result step, log_path step) of
        (Some res, Some lp) \<Rightarrow>
          [''Status: '' @ status res @ '' (code '' @ str_int (return_code res) @ '')'' @ nl,
           ''Started: '' @ started_at res @ nl,
           ''Ended:   '' @ ended_at res @ nl,
           ''Duration: '' @ fmt3 env (duration_seconds res) @ '' s'' @ nl,
           ''Command: '' @ join '' '' (command res) @ nl,
           ''Auto-confirm: '' @ (if auto_confirm step then ''yes'' else ''no'') @ nl,
           ''Log file: '' @ lp @ nl,
           nl,
           ''STDOUT'' @ nl,
           ''~~~~~~'' @ nl,
           stdout res,
           nl @ nl,
           ''STDERR'' @ nl,
           ''~~~~~~'' @ nl,
           stderr res,
           nl @ nl]
      | _ \<Rightarrow> [])"

definition step_report :: "env \<Rightarrow> step_entry \<Rightarrow> string" where
  "step_report env step = concat (step_report_writes env step)"

definition write_report :: "env \<Rightarrow> nat \<Rightarrow> step_entry list \<Rightarrow> string" where
  "write_report env t summary =
     ''Pipeline Report'' @ nl @
     replicate 80 (CHR ''='') @ nl @ nl @
     ''Generated at: '' @ isoformat env (clock env t) @ nl @
     ''Python: '' @ sys_executable env @ nl @
     nl @
     concat (map (step_report env) summary)"

text \<open>The body of the loop of \<^verbatim>\<open>main\<close> for step \<open>i\<close>.\<close>

definition run_step :: "env \<Rightarrow> nat \<Rightarrow> script_spec \<Rightarrow> pstate \<Rightarrow> pstate" where
  "run_step env i step st =
     (let script_name = sp_script step;
          step_name = fst (splitext (basename script_name));
          step_entry = \<lparr>name = step_name, script = script_name, args = sp_args step,
                        auto_confirm = sp_confirm step, skipped = False,
                        result = None, log_path = None\<rparr>
      in if \<not> isfile env i (os_path_join (repo_root env) script_name)
         then st\<lparr>run_summary := run_summary st @ [step_entry\<lparr>skipped := True\<rparr>]\<rparr>
         else
           (let input_text = (if sp_confirm step then sp_confirm_text step else []);
                (res, events) = run_script env i (tick st) (sys_executable env)
                        (os_path_join (repo_root env) script_name) (sp_args step) input_text;
                (lp, log_text) =
                  write_step_log env (os_path_join (repo_root env) ''logs'') step_name res;
                summary = run_summary st @ [step_entry\<lparr>result := Some res, log_path := Some lp\<rparr>]
            in st\<lparr>tick := tick st + 3,
                  run_summary := summary,
                  log_writes := log_writes st @ [(lp, log_text)],
                  report := Some (write_report env (tick st + 2) summary),
                  launched := launched st @ [i],
                  trace := trace st @ events @ [Now (tick st + 2)]\<rparr>))"

fun run_steps :: "env \<Rightarrow> nat \<Rightarrow> script_spec list \<Rightarrow> pstate \<Rightarrow> pstate" where
  "run_steps env i [] st = st"
| "run_steps env i (step # rest) st = run_steps env (Suc i) rest (run_step env i step st)"

definition count_status :: "string \<Rightarrow> step_entry list \<Rightarrow> nat" where
  "count_status s summary =
     length (filter (\<lambda>e. \<not> skipped e \<and> map_option status (result e) = Some s) summary)"

definition final_summary :: "env \<Rightarrow> int \<Rightarrow> int \<Rightarrow> step_entry list \<Rightarrow> string" where
  "final_summary env pipeline_start pipeline_end summary =
     replicate 80 (CHR ''-'') @ nl @
     ''Final Summary'' @ nl @
     replicate 80 (CHR ''-'') @ nl @
     ''Started: '' @ isoformat env pipeline_start @ nl @
     ''Ended:   '' @ isoformat env pipeline_end @ nl @
     ''Total Duration: '' @ fmt3 env (pipeline_end - pipeline_start) @ '' s'' @ nl @ nl @
     ''{'' @ nl @
     ''  '' @ dq @ ''success'' @ dq @ '': '' @ dec (count_status ''success'' summary) @ '','' @ nl @
     ''  '' @ dq @ ''failed'' @ dq @ '': '' @ dec (count_status ''failed'' summary) @ '','' @ nl @
     ''  '' @ dq @ ''exception'' @ dq @ '': '' @ dec (count_status ''exception'' summary) @ '','' @ nl @
     ''  '' @ dq @ ''skipped'' @ dq @ '': '' @ dec (length (filter skipped summary)) @ nl @
     ''}'' @ nl"

text \<open>
  \<^verbatim>\<open>main\<close>, for any list of steps; \<open>old_report\<close> is what the report file holds before the
  run (the final block is appended to the file).
\<close>

definition main :: "env \<Rightarrow> script_spec list \<Rightarrow> string option \<Rightarrow> pstate" where
  "main env scripts old_report =
     (let pipeline_start = clock env 0;
          st = run_steps env 0 scripts
                 \<lparr>tick = 1, run_summary = [], log_writes = [], report = old_report,
                  launched = [], trace = [Now 0]\<rparr>;
          pipeline_end = clock env (tick st)
      in st\<lparr>tick := tick st + 1,
            trace := trace st @ [Now (tick st)],
            report := Some ((case report st of None \<Rightarrow> [] | Some r \<Rightarrow> r) @
                            final_summary env pipeline_start pipeline_end (run_summary st))\<rparr>)"

text \<open>The list of the source.\<close>

definition spec :: "string \<Rightarrow> bool \<Rightarrow> script_spec" where
  "spec s c = \<lparr>sp_script = s, sp_args = [], sp_confirm = c, sp_confirm_text = ''y'' @ nl\<rparr>"

definition SCRIPTS :: "script_spec list" where
  "SCRIPTS =
     [spec ''convert_tif_to_png.py'' False,
      spec ''separate_png_files.py'' False,
      spec ''move_reflection_coefficient.py'' True,
      spec ''delete_post_files.py'' True,
      spec ''consolidate_png_files.py'' False,
      spec ''flatten_crc_structure.py'' False,
      spec ''count_png_files.py'' False,
      spec ''filter_1858_files.py'' False,
      spec ''filter_uniform_images_1858.py'' False,
      spec ''divide_images_generic.py'' False,
      spec ''create_histograms_for_processed.py'' False,
      spec ''medical_image_classifier.py'' False,
      spec ''histogram_image_classifier.py'' False,
      spec ''divided_image_classifier.py'' False]"

subsection \<open>What the claims about the orchestrator speak of\<close>

definition script_path :: "env \<Rightarrow> script_spec \<Rightarrow> string" where
  "script_path env step = os_path_join (repo_root env) (sp_script step)"

text \<open>What \<^verbatim>\<open>subprocess.run\<close> answers for step \<open>i\<close>, called as \<^verbatim>\<open>main\<close> calls it.\<close>

definition step_outcome :: "env \<Rightarrow> nat \<Rightarrow> script_spec \<Rightarrow> outcome" where
  "step_outcome env i step =
     subprocess_run env i ([sys_executable env, script_path env step] @ sp_args step)
       (if sp_confirm step \<and> sp_confirm_text step \<noteq> [] then Some (sp_confirm_text step) else None)"

definition status_recorded :: "outcome \<Rightarrow> result \<Rightarrow> bool" where
  "status_recorded oc r =
     (case oc of
        Exited rc out err \<Rightarrow>
          return_code r = rc \<and> (status r = ''success'' \<longleftrightarrow> rc = 0)
          \<and> (rc \<noteq> 0 \<longrightarrow> status r = ''failed'')
          \<and> stdout r = out \<and> stderr r = err
      | Raised exc \<Rightarrow> status r = ''exception'' \<and> return_code r = - 1)"

definition step_recorded :: "env \<Rightarrow> nat \<Rightarrow> script_spec \<Rightarrow> step_entry \<Rightarrow> bool" where
  "step_recorded env i step e =
     (script e = sp_script step \<and>
      (if isfile env i (script_path env step)
       then \<not> skipped e \<and> (\<exists>r. result e = Some r \<and> status_recorded (step_outcome env i step) r)
       else skipped e \<and> result e = None))"

text \<open>The results of the steps that were run, in the order of the run summary.\<close>

definition completed :: "step_entry list \<Rightarrow> result list" where
  "completed summary = List.map_filter result summary"

text \<open>
  The clock readings behind the time stamps: the run takes one reading before the loop and
  three for every step it runs (start, end, and the report's \<^verbatim>\<open>Generated at\<close>).
\<close>

definition timed :: "env \<Rightarrow> pstate \<Rightarrow> bool" where
  "timed env st =
     (tick st = 3 * length (completed (run_summary st)) + 1 \<and>
      (\<forall>j < length (completed (run_summary st)).
         started_at (completed (run_summary st) ! j) = isoformat env (clock env (3 * j + 1)) \<and>
         ended_at (completed (run_summary st) ! j) = isoformat env (clock env (3 * j + 2))))"

text \<open>
  The events of a whole run, as the claim about the order of the steps describes them: the
  \<open>j\<close>-th step that is run, step \<open>i\<close> of the list, reads the clock for its start, calls
  \<^verbatim>\<open>subprocess.run\<close>, gets its answer, reads the clock for its end, and the report written
  after it reads the clock once more.
\<close>

definition step_events :: "env \<Rightarrow> nat \<Rightarrow> nat \<Rightarrow> script_spec \<Rightarrow> event list" where
  "step_events env j i step =
     [Now (3 * j + 1),
      Launch i ([sys_executable env, script_path env step] @ sp_args step),
      Finished i (step_outcome env i step),
      Now (3 * j + 2),
      Now (3 * j + 3)]"

definition run_events :: "env \<Rightarrow> script_spec list \<Rightarrow> nat list \<Rightarrow> event list" where
  "run_events env scripts ids =
     concat (map (\<lambda>(j, i). step_events env j i (scripts ! i)) (zip [0..<length ids] ids))"

text \<open>The events seen so far are those of the steps launched so far.\<close>

definition traced :: "env \<Rightarrow> script_spec list \<Rightarrow> pstate \<Rightarrow> bool" where
  "traced env scripts st =
     (tick st = 3 * length (launched st) + 1 \<and>
      length (completed (run_summary st)) = length (launched st) \<and>
      trace st = Now 0 # run_events env scripts (launched st))"

text \<open>The lines of a step's log and of its block in the report that carry the step's record.\<close>

definition log_fields :: "env \<Rightarrow> result \<Rightarrow> string list" where
  "log_fields env r =
     [''COMMAND: '' @ join '' '' (command r) @ nl,
      ''STARTED: '' @ started_at r @ nl,
      ''ENDED:   '' @ ended_at r @ nl,
      ''DURATION_SECONDS: '' @ fmt3 env (duration_seconds r) @ nl,
      ''STATUS: '' @ status r @ nl,
      ''RETURN_CODE: '' @ str_int (return_code r) @ nl,
      ''===== STDOUT ====='' @ nl @ stdout r @ nl,
      ''===== STDERR ====='' @ nl @ stderr r @ nl]"

definition report_fields :: "env \<Rightarrow> result \<Rightarrow> string list" where
  "report_fields env r =
     [''Command: '' @ join '' '' (command r) @ nl,
      ''Started: '' @ started_at r @ nl,
      ''Ended:   '' @ ended_at r @ nl,
      ''Duration: '' @ fmt3 env (duration_seconds r) @ '' s'' @ nl,
      ''Status: '' @ status r @ '' (code '' @ str_int (return_code r) @ '')'' @ nl,
      ''STDOUT'' @ nl @ ''~~~~~~'' @ nl @ stdout r @ nl,
      ''STDERR'' @ nl @ ''~~~~~~'' @ nl @ stderr r @ nl]"

definition reported :: "env \<Rightarrow> pstate \<Rightarrow> bool" where
  "reported env st =
     (\<forall>e \<in> set (run_summary st). \<not> skipped e \<longrightarrow>
        (\<exists>res lp t es. result e = Some res \<and> log_path e = Some lp
           \<and> (lp, concat (step_log_writes env res)) \<in> set (log_writes st)
           \<and> report st = Some (write_report env t es) \<and> e \<in> set es))"

text \<open>
  A small world to run the orchestrator in: four steps, the second script is missing, the
  first child exits with code 2, the third call raises, the fourth child succeeds.
\<close>

definition demo_env :: env where
  "demo_env =
     \<lparr>clock = (\<lambda>k. 1000 * int k), isoformat = str_int, fmt3 = str_int,
      isfile = (\<lambda>i p. i \<noteq> 1),
      subprocess_run = (\<lambda>i cmd inp.
         if i = 0 then Exited 2 ''out'' ''err''
         else if i = 2 then Raised ''boom''
         else Exited 0 ''ok'' []),
      sys_executable = ''python'', repo_root = ''/repo''\<rparr>"

definition demo_scripts :: "script_spec list" where
  "demo_scripts =
     [spec ''a.py'' False, spec ''b.py'' False, spec ''c.py'' True, spec ''d.py'' False]"

text \<open>The same world with a clock that is set back between any two readings.\<close>

definition back_env :: env where
  "back_env = demo_env\<lparr>clock := (\<lambda>k. 10000 - 1000 * int k)\<rparr>"

section \<open>The disk and the batch scripts' bookkeeping\<close>

text \<open>
  The disk maps the path of every file to its content. The batch scripts return
  \<^verbatim>\<open>(success_count, error_count, errors)\<close>; the state they work on holds these, the disk and
  the lines they print.
\<close>

record 'f batch =
  disk :: "path \<rightharpoonup> 'f"
  success_count :: nat
  error_count :: nat
  errors :: "string list"
  printed :: "string list"

definition path_str :: "path \<Rightarrow> string" where
  "path_str p = join ''/'' p"

text \<open>\<^verbatim>\<open>f"{n:wd}"\<close>: the number, right-justified in \<open>w\<close> columns.\<close>

definition fmt_d :: "nat \<Rightarrow> nat \<Rightarrow> string" where
  "fmt_d w n = replicate (w - length (dec n)) (CHR '' '') @ dec n"

definition progress :: "nat \<Rightarrow> nat \<Rightarrow> nat \<Rightarrow> string" where
  "progress w i n = ''['' @ fmt_d w i @ ''/'' @ dec n @ '']''"

section \<open>delete\_post\_files.py\<close>

definition find_post_files :: "walk_entry list \<Rightarrow> path list" where
  "find_post_files walk =
     concat (map (\<lambda>(root, dirs, files).
                    map (\<lambda>file. root @ [file]) (filter (str_in ''__post'') files)) walk)"

text \<open>
  The body of the loop of \<^verbatim>\<open>delete_post_files\<close> for item \<open>i\<close> of \<open>n\<close>. \<open>remove_error i p\<close> is
  the text of the exception \<^verbatim>\<open>os.remove(p)\<close> raises when item \<open>i\<close> calls it on an existing
  file, \<open>None\<close> when it removes the file.
\<close>

definition delete_item ::
  "(nat \<Rightarrow> path \<Rightarrow> string option) \<Rightarrow> bool \<Rightarrow> nat \<Rightarrow> nat \<Rightarrow> path \<Rightarrow> 'f batch \<Rightarrow> 'f batch" where
  "delete_item remove_error dry_run n i file_path st =
     (if dry_run
      then st\<lparr>printed := printed st @ [''[DRY RUN] Would delete: '' @ path_str file_path]\<rparr>
      else if disk st file_path \<noteq> None then
        (case remove_error i file_path of
           None \<Rightarrow>
             st\<lparr>disk := (disk st)(file_path := None),
                success_count := success_count st + 1,
                printed := printed st @ [progress 3 i n @ '' Deleted: '' @ last file_path]\<rparr>
         | Some e \<Rightarrow>
             (let error_msg = ''Error deleting '' @ path_str file_path @ '': '' @ e
              in st\<lparr>error_count := error_count st + 1,
                    errors := errors st @ [error_msg],
                    printed := printed st @ [progress 3 i n @ '' ERROR: '' @ error_msg]\<rparr>))
      else st\<lparr>printed := printed st @ [progress 3 i n @ '' Not found: '' @ path_str file_path]\<rparr>)"

fun delete_loop ::
  "(nat \<Rightarrow> path \<Rightarrow> string option) \<Rightarrow> bool \<Rightarrow> nat \<Rightarrow> nat \<Rightarrow> path list \<Rightarrow> 'f batch \<Rightarrow> 'f batch" where
  "delete_loop remove_error dry_run n i [] st = st"
| "delete_loop remove_error dry_run n i (file_path # rest) st =
     delete_loop remove_error dry_run n (Suc i) rest
       (delete_item remove_error dry_run n i file_path st)"

definition start :: "(path \<rightharpoonup> 'f) \<Rightarrow> 'f batch" where
  "start d = \<lparr>disk = d, success_count = 0, error_count = 0, errors = [], printed = []\<rparr>"

definition delete_post_files ::
  "(nat \<Rightarrow> path \<Rightarrow> string option) \<Rightarrow> (path \<rightharpoonup> 'f) \<Rightarrow> walk_entry list \<Rightarrow> bool \<Rightarrow> 'f batch" where
  "delete_post_files remove_error d walk dry_run =
     (let post_files = find_post_files walk
      in if post_files = []
         then (start d)\<lparr>printed := [''No files with '' @ [CHR 0x27] @ ''__post'' @ [CHR 0x27] @ '' found.'']\<rparr>
         else delete_loop remove_error dry_run (length post_files) 1 post_files
                ((start d)\<lparr>printed :=
                   [''Found '' @ dec (length post_files) @ '' files with '' @ [CHR 0x27] @ ''__post''
                      @ [CHR 0x27] @ '' in name.'',
                    replicate 60 (CHR ''='')]\<rparr>))"


section \<open>convert\_tif\_to\_png.py\<close>

text \<open>
  An image as the imaging library holds it: mode, size and the rows of pixels. A numpy
  array has its shape (rows, columns) and its elements. A file on the disk is an image the
  library can open, or something else.
\<close>

record 'p image =
  mode :: string
  width :: nat
  height :: nat
  pixels :: "'p list list"

record 'p ndarray =
  shape :: "nat \<times> nat"
  elems :: "'p list list"

datatype 'p content = Img "'p image" | Junk

text \<open>
  What the libraries do is a parameter: which calls raise (with the text of the exception),
  how a pixel is converted from one mode to another, which pixel a resized image has at a
  place (\<open>resample img size x y\<close>), and the floating-point arithmetic of
  the normalisation \<^verbatim>\<open>((a - a.min()) / (a.max() - a.min()) * 255).astype(np.uint8)\<close> on one
  element (\<open>scale lo hi x\<close>).
\<close>

record 'p pil =
  open_error :: "path \<Rightarrow> string"
  load_error :: "'p image \<Rightarrow> string option"
  convert_error :: "'p image \<Rightarrow> string \<Rightarrow> string option"
  convert_px :: "string \<Rightarrow> string \<Rightarrow> 'p \<Rightarrow> 'p"
  save_error :: "'p image \<Rightarrow> path \<Rightarrow> string option"
  resize_error :: "'p image \<Rightarrow> nat \<times> nat \<Rightarrow> string option"
  resample :: "'p image \<Rightarrow> nat \<times> nat \<Rightarrow> nat \<Rightarrow> nat \<Rightarrow> 'p"
  amin :: "'p list list \<Rightarrow> 'p"
  amax :: "'p list list \<Rightarrow> 'p"
  scale :: "'p \<Rightarrow> 'p \<Rightarrow> 'p \<Rightarrow> 'p"

definition image_open :: "'p pil \<Rightarrow> (path \<rightharpoonup> 'p content) \<Rightarrow> path \<Rightarrow> string + 'p image" where
  "image_open lib d p =
     (case d p of Some (Img img) \<Rightarrow> Inr img | _ \<Rightarrow> Inl (open_error lib p))"

text \<open>\<^verbatim>\<open>np.array(img)\<close>: one row of the array for each row of the image.\<close>

definition np_array :: "'p pil \<Rightarrow> 'p image \<Rightarrow> string + 'p ndarray" where
  "np_array lib img =
     (case load_error lib img of
        Some e \<Rightarrow> Inl e
      | None \<Rightarrow> Inr \<lparr>shape = (height img, width img), elems = pixels img\<rparr>)"

definition array_size :: "'p ndarray \<Rightarrow> nat" where
  "array_size a = fst (shape a) * snd (shape a)"

definition normalize :: "'p pil \<Rightarrow> 'p ndarray \<Rightarrow> 'p ndarray" where
  "normalize lib a =
     a\<lparr>elems := map (map (scale lib (amin lib (elems a)) (amax lib (elems a)))) (elems a)\<rparr>"

text \<open>\<^verbatim>\<open>Image.fromarray(a, mode)\<close> of a two-dimensional array: the size is (columns, rows).\<close>

definition fromarray :: "'p ndarray \<Rightarrow> string \<Rightarrow> 'p image" where
  "fromarray a m = \<lparr>mode = m, width = snd (shape a), height = fst (shape a), pixels = elems a\<rparr>"

definition convert :: "'p pil \<Rightarrow> 'p image \<Rightarrow> string \<Rightarrow> string + 'p image" where
  "convert lib img m =
     (case convert_error lib img m of
        Some e \<Rightarrow> Inl e
      | None \<Rightarrow> Inr (img\<lparr>mode := m, pixels := map (map (convert_px lib (mode img) m)) (pixels img)\<rparr>))"

text \<open>\<^verbatim>\<open>img.save(path, 'PNG')\<close>: the file at the path is then this image, unless the call raises.\<close>

definition save ::
  "'p pil \<Rightarrow> (path \<rightharpoonup> 'p content) \<Rightarrow> 'p image \<Rightarrow> path \<Rightarrow> string + (path \<rightharpoonup> 'p content)" where
  "save lib d img p =
     (case save_error lib img p of Some e \<Rightarrow> Inl e | None \<Rightarrow> Inr (d(p \<mapsto> Img img)))"

text \<open>
  The body of the \<^verbatim>\<open>try\<close> of \<^verbatim>\<open>convert_tif_to_png\<close>: the new disk, or the text of the exception
  that left it.
\<close>

definition convert_body ::
  "'p pil \<Rightarrow> (path \<rightharpoonup> 'p content) \<Rightarrow> path \<Rightarrow> path \<Rightarrow> string + (path \<rightharpoonup> 'p content)" where
  "convert_body lib d tif_path png_path =
     (case image_open lib d tif_path of
        Inl e \<Rightarrow> Inl e
      | Inr img \<Rightarrow>
          if mode img = ''F'' then
            (case np_array lib img of
               Inl e \<Rightarrow> Inl e
             | Inr img_array \<Rightarrow>
                 if array_size img_array > 0
                 then save lib d (fromarray (normalize lib img_array) ''L'') png_path
                 else (case convert lib img ''L'' of
                         Inl e \<Rightarrow> Inl e
                       | Inr img' \<Rightarrow> save lib d img' png_path))
          else if mode img \<in> {''RGBA'', ''LA'', ''P''} then save lib d img png_path
          else if mode img = ''P'' then
            (case convert lib img ''RGBA'' of
               Inl e \<Rightarrow> Inl e
             | Inr img' \<Rightarrow> save lib d img' png_path)
          else
            (case convert lib img ''RGB'' of
               Inl e \<Rightarrow> Inl e
             | Inr img' \<Rightarrow> save lib d img' png_path))"

text \<open>\<^verbatim>\<open>convert_tif_to_png\<close>: the return value, the new disk and the lines printed.\<close>

definition convert_tif_to_png ::
  "'p pil \<Rightarrow> (path \<rightharpoonup> 'p content) \<Rightarrow> path \<Rightarrow> path \<Rightarrow> bool \<times> (path \<rightharpoonup> 'p content) \<times> string list" where
  "convert_tif_to_png lib d tif_path png_path =
     (case convert_body lib d tif_path png_path of
        Inr d' \<Rightarrow> (True, d', [])
      | Inl e \<Rightarrow> (False, d, [''Error converting '' @ path_str tif_path @ '': '' @ e]))"


text \<open>
  The body of the loop of \<^verbatim>\<open>convert_all_tif_to_png\<close> for item \<open>i\<close> of \<open>n\<close>. Nothing in the
  outer \<^verbatim>\<open>try\<close> raises once \<^verbatim>\<open>convert_tif_to_png\<close> has caught its own exceptions and the
  removal of the original has its own handler, so the outer handler has no case here.
\<close>

definition convert_item ::
  "'p pil \<Rightarrow> (nat \<Rightarrow> path \<Rightarrow> string option) \<Rightarrow> bool \<Rightarrow> nat \<Rightarrow> nat \<Rightarrow> path
     \<Rightarrow> 'p content batch \<Rightarrow> 'p content batch" where
  "convert_item lib remove_error delete_original n i tif_path st =
     (let png_path = butlast tif_path @ [fst (splitext (last tif_path)) @ ''.png''];
          (ok, d', lines) = convert_tif_to_png lib (disk st) tif_path png_path
      in if ok then
           (let st1 = st\<lparr>disk := d',
                         success_count := success_count st + 1,
                         printed := printed st @ lines @
                           [progress 4 i n @ '' Converted: '' @ last tif_path @ '' -> ''
                              @ last png_path]\<rparr>
            in if delete_original then
                 (case (if d' tif_path = None then Some ''No such file or directory''
                        else remove_error i tif_path) of
                    None \<Rightarrow>
                      st1\<lparr>disk := d'(tif_path := None),
                          printed := printed st1 @
                            [replicate 20 (CHR '' '') @ ''Deleted original: '' @ last tif_path]\<rparr>
                  | Some e \<Rightarrow>
                      st1\<lparr>printed := printed st1 @
                            [replicate 20 (CHR '' '') @ ''Warning: Could not delete original ''
                               @ path_str tif_path @ '': '' @ e]\<rparr>)
               else st1)
         else st\<lparr>disk := d',
                 error_count := error_count st + 1,
                 errors := errors st @ [''Failed to convert: '' @ path_str tif_path],
                 printed := printed st @ lines\<rparr>)"

fun convert_loop ::
  "'p pil \<Rightarrow> (nat \<Rightarrow> path \<Rightarrow> string option) \<Rightarrow> bool \<Rightarrow> nat \<Rightarrow> nat \<Rightarrow> path list
     \<Rightarrow> 'p content batch \<Rightarrow> 'p content batch" where
  "convert_loop lib remove_error delete_original n i [] st = st"
| "convert_loop lib remove_error delete_original n i (tif_path # rest) st =
     convert_loop lib remove_error delete_original n (Suc i) rest
       (convert_item lib remove_error delete_original n i tif_path st)"


section \<open>What the claims about the batch loops speak of\<close>







section \<open>Small worlds for the batch scripts\<close>

text \<open>
  An imaging library in which every call works except the conversion of mode \<open>I;16\<close>, a
  disk with a floating-point image, a file that is no image, a 16-bit image and a grey
  image, and a tree of PNG files of which two carry \<open>__post\<close> in their names.
\<close>

definition demo_lib :: "nat pil" where
  "demo_lib =
     \<lparr>open_error = (\<lambda>p. ''cannot identify image file''),
      load_error = (\<lambda>img. None),
      convert_error = (\<lambda>img m. if mode img = ''I;16'' then Some ''conversion not supported'' else None),
      convert_px = (\<lambda>m m' x. x),
      save_error = (\<lambda>img p. None),
      resize_error = (\<lambda>img sz. None),
      resample = (\<lambda>img sz x y. pixels img ! (y * height img div snd sz) ! (x * width img div fst sz)),
      amin = (\<lambda>a. Min (set (concat a))),
      amax = (\<lambda>a. Max (set (concat a))),
      scale = (\<lambda>lo hi x. (x - lo) * 255 div (hi - lo))\<rparr>"

definition demo_disk :: "path \<rightharpoonup> nat content" where
  "demo_disk =
     [[''raw'', ''a.tif''] \<mapsto> Img \<lparr>mode = ''F'', width = 3, height = 2, pixels = [[0, 5, 10], [10, 5, 0]]\<rparr>,
      [''raw'', ''b.tif''] \<mapsto> Junk,
      [''raw'', ''c.tiff''] \<mapsto> Img \<lparr>mode = ''I;16'', width = 1, height = 1, pixels = [[7]]\<rparr>,
      [''raw'', ''d.TIF''] \<mapsto> Img \<lparr>mode = ''L'', width = 1, height = 2, pixels = [[1], [2]]\<rparr>]"







section \<open>divide\_images\_generic.py\<close>













subsection \<open>What the claim about the tiling speaks of\<close>








section \<open>flatten\_crc\_structure.py\<close>

text \<open>
  \<^verbatim>\<open>PurePath.suffix\<close> and \<^verbatim>\<open>PurePath.stem\<close> of a file name: the suffix starts at the last
  dot, unless that dot is the first or the last character of the name.
\<close>

definition path_suffix :: "string \<Rightarrow> string" where
  "path_suffix fname =
     (let ext = rev (takeWhile (\<lambda>c. c \<noteq> CHR ''.'') (rev fname));
          i = length fname - length ext - 1
      in if CHR ''.'' \<in> set fname \<and> 0 < i \<and> i < length fname - 1 then drop i fname else [])"

definition path_stem :: "string \<Rightarrow> string" where
  "path_stem fname =
     (let ext = rev (takeWhile (\<lambda>c. c \<noteq> CHR ''.'') (rev fname));
          i = length fname - length ext - 1
      in if CHR ''.'' \<in> set fname \<and> 0 < i \<and> i < length fname - 1 then take i fname else fname)"

record 'f flat =
  on_disk :: "path \<rightharpoonup> 'f"
  files_moved :: nat
  moved_lines :: "string list"

text \<open>
  The loop that handles filename conflicts: while the target exists, the next numbered name
  is tried. Whether it ends depends on the disk, so the result is optional.
\<close>

partial_function (option) free_target ::
  "(path \<Rightarrow> bool) \<Rightarrow> path \<Rightarrow> string \<Rightarrow> string \<Rightarrow> path \<Rightarrow> nat \<Rightarrow> path option" where
  "free_target exists target_dir stem suffix target_file counter =
     (if exists target_file
      then free_target exists target_dir stem suffix
             (target_dir @ [stem @ ''_'' @ dec counter @ suffix]) (counter + 1)
      else Some target_file)"

text \<open>
  \<^verbatim>\<open>shutil.move(source, target)\<close> inside its \<^verbatim>\<open>try\<close>: the call raises when the source is gone
  or when \<open>move_error\<close> says so, and then nothing is moved.
\<close>

definition move_file ::
  "(path \<Rightarrow> path \<Rightarrow> string option) \<Rightarrow> 'f flat \<Rightarrow> path \<Rightarrow> path \<Rightarrow> 'f flat" where
  "move_file move_error st source_file target_file =
     (case (case on_disk st source_file of
              None \<Rightarrow> Inl ''No such file or directory''
            | Some c \<Rightarrow> (case move_error source_file target_file of
                          Some e \<Rightarrow> Inl e
                        | None \<Rightarrow> Inr c)) of
        Inl e \<Rightarrow>
          st\<lparr>moved_lines := moved_lines st @
                [''Error moving '' @ path_str source_file @ '': '' @ e]\<rparr>
      | Inr c \<Rightarrow>
          st\<lparr>on_disk := (on_disk st)(source_file := None, target_file \<mapsto> c),
              files_moved := files_moved st + 1,
              moved_lines := moved_lines st @
                [''Moved: '' @ path_str source_file @ '' -> '' @ path_str target_file]\<rparr>)"

text \<open>
  The body of the loop over the files of one \<open>images\<close> directory. A path exists when it is
  a file on the disk or a directory (\<open>is_dir\<close>).
\<close>

definition flatten_file ::
  "(path \<Rightarrow> bool) \<Rightarrow> (path \<Rightarrow> path \<Rightarrow> string option) \<Rightarrow> path \<Rightarrow> path \<Rightarrow> string \<Rightarrow> 'f flat
     \<Rightarrow> 'f flat option" where
  "flatten_file is_dir move_error root_path target_dir file st =
     (if endswith (lower file) ''.png'' then
        (let source_file = root_path @ [file];
             target_file = target_dir @ [file]
         in case free_target (\<lambda>p. on_disk st p \<noteq> None \<or> is_dir p) target_dir
                   (path_stem file) (path_suffix file) target_file 1 of
              None \<Rightarrow> None
            | Some target \<Rightarrow> Some (move_file move_error st source_file target))
      else Some st)"

fun flatten_files ::
  "(path \<Rightarrow> bool) \<Rightarrow> (path \<Rightarrow> path \<Rightarrow> string option) \<Rightarrow> path \<Rightarrow> path \<Rightarrow> string list \<Rightarrow> 'f flat
     \<Rightarrow> 'f flat option" where
  "flatten_files is_dir move_error root_path target_dir [] st = Some st"
| "flatten_files is_dir move_error root_path target_dir (file # rest) st =
     (case flatten_file is_dir move_error root_path target_dir file st of
        None \<Rightarrow> None
      | Some st' \<Rightarrow> flatten_files is_dir move_error root_path target_dir rest st')"

text \<open>
  The body of the loop over the directories of the walk. The roots of \<^verbatim>\<open>os.walk(base_dir)\<close>
  lie under \<open>base_dir\<close>, so \<^verbatim>\<open>relative_to\<close> drops that prefix; the target directory is an
  ancestor of the directory walked, so \<^verbatim>\<open>mkdir\<close> finds it there.
\<close>

definition flatten_entry ::
  "(path \<Rightarrow> bool) \<Rightarrow> (path \<Rightarrow> path \<Rightarrow> string option) \<Rightarrow> path \<Rightarrow> walk_entry \<Rightarrow> 'f flat
     \<Rightarrow> 'f flat option" where
  "flatten_entry is_dir move_error base_dir entry st =
     (case entry of (root_path, dirs, file_names) \<Rightarrow>
        if root_path = base_dir then Some st
        else
          (let path_parts = drop (length base_dir) root_path
           in if length path_parts \<ge> 3 \<and> path_parts ! 0 = path_parts ! 1
                 \<and> path_parts ! 2 = ''images''
              then flatten_files is_dir move_error root_path (base_dir @ [path_parts ! 0])
                     file_names st
              else Some st))"

fun flatten_walk ::
  "(path \<Rightarrow> bool) \<Rightarrow> (path \<Rightarrow> path \<Rightarrow> string option) \<Rightarrow> path \<Rightarrow> walk_entry list \<Rightarrow> 'f flat
     \<Rightarrow> 'f flat option" where
  "flatten_walk is_dir move_error base_dir [] st = Some st"
| "flatten_walk is_dir move_error base_dir (entry # rest) st =
     (case flatten_entry is_dir move_error base_dir entry st of
        None \<Rightarrow> None
      | Some st' \<Rightarrow> flatten_walk is_dir move_error base_dir rest st')"

definition flatten_directory ::
  "(path \<Rightarrow> bool) \<Rightarrow> (path \<Rightarrow> path \<Rightarrow> string option) \<Rightarrow> (path \<rightharpoonup> 'f) \<Rightarrow> path \<Rightarrow> tree
     \<Rightarrow> 'f flat option" where
  "flatten_directory is_dir move_error d base_dir t =
     flatten_walk is_dir move_error base_dir (os_walk base_dir t)
       \<lparr>on_disk = d, files_moved = 0, moved_lines = []\<rparr>"

subsection \<open>What the claim about the flattening speaks of\<close>

text \<open>
  The numbered names the conflict loop tries, and the invariant of the run: the disk stays
  finite and a file that was there at the start is either still there with its content or
  was moved away from a directory at least three levels below the base. For a run: a tree
  with one nested \<open>images\<close> directory whose file meets two conflicts in its target directory.
\<close>

definition numbered :: "path \<Rightarrow> string \<Rightarrow> string \<Rightarrow> nat \<Rightarrow> path" where
  "numbered target_dir stem suffix k = target_dir @ [stem @ ''_'' @ dec k @ suffix]"

definition never_overwritten :: "(path \<rightharpoonup> 'f) \<Rightarrow> path \<Rightarrow> 'f flat \<Rightarrow> bool" where
  "never_overwritten d base_dir st =
     (finite (dom (on_disk st)) \<and>
      (\<forall>p x. d p = Some x \<longrightarrow>
         on_disk st p = Some x \<or> (on_disk st p = None \<and> length base_dir + 3 < length p)))"

definition no_dirs :: "path \<Rightarrow> bool" where
  "no_dirs p = False"

definition no_move_error :: "path \<Rightarrow> path \<Rightarrow> string option" where
  "no_move_error p q = None"

definition crc_tree :: tree where
  "crc_tree = Dir [(''A'', Dir [(''A'', Dir [(''images'', Dir [] [''x.png''])] [])] [''x.png'', ''x_1.png''])] []"

definition crc_disk :: "path \<rightharpoonup> nat" where
  "crc_disk =
     [[''Processed'', ''healthy'', ''A'', ''x.png''] \<mapsto> 1,
      [''Processed'', ''healthy'', ''A'', ''x_1.png''] \<mapsto> 2,
      [''Processed'', ''healthy'', ''A'', ''A'', ''images'', ''x.png''] \<mapsto> 3]"

section \<open>consolidate\_png\_files.py\<close>

text \<open>
  A run of the script either ends or is left at the first exception outside a \<^verbatim>\<open>try\<close>
  (only \<^verbatim>\<open>mkdir\<close> can raise there); \<open>run_all\<close> threads the state through a loop and stops at
  such an exception.
\<close>

fun run_all :: "('s \<Rightarrow> 'a \<Rightarrow> string + 's) \<Rightarrow> 's \<Rightarrow> 'a list \<Rightarrow> string + 's" where
  "run_all f s [] = Inr s"
| "run_all f s (x # xs) = (case f s x of Inl e \<Rightarrow> Inl e | Inr s' \<Rightarrow> run_all f s' xs)"

record 'f cons =
  c_disk :: "path \<rightharpoonup> 'f"
  healthy_files_copied :: nat
  tumour_files_copied :: nat
  c_lines :: "string list"

definition source_dir :: path where "source_dir = [''PNG_Files'']"
definition dest_dir :: path where "dest_dir = [''Processed'']"
definition healthy_dir :: path where "healthy_dir = dest_dir @ [''healthy'']"
definition tumour_dir :: path where "tumour_dir = dest_dir @ [''tumour'']"

definition classes :: "string list" where
  "classes = [''healthy'', ''tumour'', ''heathy'']"

text \<open>The index of the first part that is one of the class names.\<close>

fun first_category :: "string list \<Rightarrow> nat option" where
  "first_category [] = None"
| "first_category (part # parts) =
     (if part \<in> set classes then Some 0 else map_option Suc (first_category parts))"

text \<open>
  \<^verbatim>\<open>copy_files_with_structure\<close>. The source path lies under \<open>source_dir\<close> (it comes from the
  walk of that directory), so \<^verbatim>\<open>relative_to\<close> drops the prefix. \<open>mkdir_error\<close> and \<open>copy_error\<close>
  say which calls of \<^verbatim>\<open>mkdir\<close> and \<^verbatim>\<open>shutil.copy2\<close> raise.
\<close>

definition copy_files_with_structure ::
  "(path \<Rightarrow> string option) \<Rightarrow> (path \<Rightarrow> path \<Rightarrow> string option) \<Rightarrow> 'f cons \<Rightarrow> path \<Rightarrow> path
     \<Rightarrow> string \<Rightarrow> string + 'f cons" where
  "copy_files_with_structure mkdir_error copy_error st source_path dest_base_dir file_type =
     (if c_disk st source_path \<noteq> None \<and> lower (path_suffix (last source_path)) = ''.png'' then
        (let path_parts = drop (length source_dir) source_path
         in case first_category path_parts of
              None \<Rightarrow>
                Inr (st\<lparr>c_lines := c_lines st @
                       [''Warning: Could not determine category for '' @ path_str source_path]\<rparr>)
            | Some cat_index \<Rightarrow>
                (let folder_structure = take cat_index path_parts;
                     remaining_path = drop (cat_index + 1) path_parts;
                     dest_folder0 = (if folder_structure \<noteq> [] then dest_base_dir @ folder_structure
                                     else dest_base_dir);
                     dest_folder = (if remaining_path \<noteq> [] then dest_folder0 @ butlast remaining_path
                                    else dest_folder0)
                 in case mkdir_error dest_folder of
                      Some e \<Rightarrow> Inl e
                    | None \<Rightarrow>
                        (let dest_file_path = dest_folder @ [last source_path]
                         in case copy_error source_path dest_file_path of
                              Some e \<Rightarrow>
                                Inr (st\<lparr>c_lines := c_lines st @
                                       [''Error copying '' @ path_str source_path @ '': '' @ e]\<rparr>)
                            | None \<Rightarrow>
                                Inr (st\<lparr>c_disk := (c_disk st)(dest_file_path := c_disk st source_path),
                                        healthy_files_copied :=
                                          (if file_type = ''healthy'' then healthy_files_copied st + 1
                                           else healthy_files_copied st),
                                        tumour_files_copied :=
                                          (if file_type = ''healthy'' then tumour_files_copied st
                                           else tumour_files_copied st + 1),
                                        c_lines := c_lines st @
                                          [''Copied: '' @ path_str source_path @ '' -> ''
                                             @ path_str dest_file_path]\<rparr>))))
      else Inr st)"

text \<open>The body of the loop over the directories of the walk.\<close>

definition consolidate_entry ::
  "(path \<Rightarrow> string option) \<Rightarrow> (path \<Rightarrow> path \<Rightarrow> string option) \<Rightarrow> 'f cons \<Rightarrow> walk_entry
     \<Rightarrow> string + 'f cons" where
  "consolidate_entry mkdir_error copy_error st entry =
     (case entry of (root_path, dirs, file_names) \<Rightarrow>
        if root_path = source_dir then Inr st
        else
          (let png_files = filter (\<lambda>f. endswith (lower f) ''.png'') file_names
           in if png_files \<noteq> [] then
                (if ''healthy'' \<in> set root_path then
                   run_all (\<lambda>s png_file. copy_files_with_structure mkdir_error copy_error s
                                            (root_path @ [png_file]) healthy_dir ''healthy'')
                     st png_files
                 else if ''tumour'' \<in> set root_path then
                   run_all (\<lambda>s png_file. copy_files_with_structure mkdir_error copy_error s
                                            (root_path @ [png_file]) tumour_dir ''tumour'')
                     st png_files
                 else if ''heathy'' \<in> set root_path then
                   run_all (\<lambda>s png_file. copy_files_with_structure mkdir_error copy_error s
                                            (root_path @ [png_file]) healthy_dir ''healthy'')
                     st png_files
                 else
                   Inr (st\<lparr>c_lines := c_lines st @
                          [''Warning: Directory with PNG files but no category found: ''
                             @ path_str root_path]\<rparr>))
              else Inr st))"

definition consolidate_png_files ::
  "(path \<Rightarrow> string option) \<Rightarrow> (path \<Rightarrow> path \<Rightarrow> string option) \<Rightarrow> (path \<rightharpoonup> 'f) \<Rightarrow> tree
     \<Rightarrow> string + 'f cons" where
  "consolidate_png_files mkdir_error copy_error d t =
     (case mkdir_error healthy_dir of
        Some e \<Rightarrow> Inl e
      | None \<Rightarrow>
          (case mkdir_error tumour_dir of
             Some e \<Rightarrow> Inl e
           | None \<Rightarrow>
               run_all (consolidate_entry mkdir_error copy_error)
                 \<lparr>c_disk = d, healthy_files_copied = 0, tumour_files_copied = 0,
                  c_lines = [''Created destination directories: '' @ path_str healthy_dir
                               @ '' and '' @ path_str tumour_dir]\<rparr>
                 (os_walk source_dir t)))"

section \<open>count\_png\_files.py\<close>

text \<open>
  \<^verbatim>\<open>count_directory_files\<close>: the counts by category key. The tree is \<open>None\<close> when the directory
  does not exist. The body of the loop adds the PNG files of one directory to the count of
  its key.
\<close>

definition category_key :: "string list \<Rightarrow> string" where
  "category_key path_parts =
     (let category = (case find (\<lambda>part. part \<in> set classes) path_parts of
                        None \<Rightarrow> ''unknown''
                      | Some part \<Rightarrow> part)
      in if length path_parts > 0 then category @ ''_'' @ hd path_parts else category)"

definition count_entry :: "path \<Rightarrow> walk_entry \<Rightarrow> (string \<rightharpoonup> nat) \<Rightarrow> (string \<rightharpoonup> nat)" where
  "count_entry directory entry counts =
     (case entry of (root_path, dirs, file_names) \<Rightarrow>
        if root_path = directory then counts
        else
          (let png_files = filter (\<lambda>f. endswith (lower f) ''.png'') file_names
           in if png_files \<noteq> [] then
                (let key = category_key (drop (length directory) root_path)
                 in counts(key \<mapsto>
                      (case counts key of None \<Rightarrow> 0 | Some n \<Rightarrow> n) + length png_files))
              else counts))"

definition count_directory_files :: "tree option \<Rightarrow> path \<Rightarrow> (string \<rightharpoonup> nat)" where
  "count_directory_files t directory =
     (case t of
        None \<Rightarrow> Map.empty
      | Some tr \<Rightarrow> fold (count_entry directory) (os_walk directory tr) Map.empty)"

section \<open>Properties of the folder-name scan\<close>

lemma lower_healthy: "lower ''healthy'' = ''healthy''"
  by (simp add: lower_def lower_char_def)

lemma lower_tumour: "lower ''tumour'' = ''tumour''"
  by (simp add: lower_def lower_char_def)

lemma candidate_healthy: "rename_candidate root ''healthy'' = None"
  by (simp add: rename_candidate_def new_name_and_type_def lower_healthy startswith_def)

lemma candidate_tumour: "rename_candidate root ''tumour'' = None"
  by (simp add: rename_candidate_def new_name_and_type_def lower_tumour startswith_def)

lemma candidate_other: "\<not> is_class_name d \<Longrightarrow> rename_candidate root d = None"
  by (simp add: rename_candidate_def new_name_and_type_def is_class_name_def)

lemma map_filter_all_None: "(\<And>x. x \<in> set xs \<Longrightarrow> f x = None) \<Longrightarrow> List.map_filter f xs = []"
  by (induction xs) simp_all

text \<open>
  Claim C9. A directory named exactly \<open>healthy\<close> or exactly \<open>tumour\<close> is never proposed for
  renaming, so a scan of a tree in which every directory that carries a class word is
  already called \<open>healthy\<close> or \<open>tumour\<close> returns the empty list.
\<close>

theorem find_folders_to_rename_normalized:
  assumes "\<forall>(root, dirs, fs) \<in> set walk. \<forall>d \<in> set dirs.
             is_class_name d \<longrightarrow> d = ''healthy'' \<or> d = ''tumour''"
  shows "rename_candidate r ''healthy'' = None \<and> rename_candidate r ''tumour'' = None
         \<and> find_folders_to_rename walk = []"
proof -
  have "List.map_filter (rename_candidate root) dirs = []"
    if "(root, dirs, fs) \<in> set walk" for root dirs fs
  proof (rule map_filter_all_None)
    fix d assume "d \<in> set dirs"
    with assms that have "is_class_name d \<longrightarrow> d = ''healthy'' \<or> d = ''tumour''"
      by blast
    then show "rename_candidate root d = None"
      by (cases "is_class_name d")
         (auto simp: candidate_healthy candidate_tumour candidate_other)
  qed
  then have "find_folders_to_rename walk = []"
    by (auto simp: find_folders_to_rename_def)
  then show ?thesis
    by (simp add: candidate_healthy candidate_tumour)
qed

theorem find_folders_to_rename_normalized_witness:
  "find_folders_to_rename
     (os_walk [''PNG_Files'']
        (Dir [(''240911_CRC'', Dir [(''healthy'', Dir [] [''a.png'']),
                                     (''tumour'', Dir [] [''b.png''])] [])] [])) = []"
proof -
  let ?w = "os_walk [''PNG_Files'']
        (Dir [(''240911_CRC'', Dir [(''healthy'', Dir [] [''a.png'']),
                                     (''tumour'', Dir [] [''b.png''])] [])] [])"
  have "\<forall>(root, dirs, fs) \<in> set ?w. \<forall>d \<in> set dirs.
          is_class_name d \<longrightarrow> d = ''healthy'' \<or> d = ''tumour''"
    by (simp add: is_class_name_def lower_def lower_char_def startswith_def)
  from find_folders_to_rename_normalized [OF this] show ?thesis
    by blast
qed

section \<open>Properties of the strings\<close>

lemma startswith_iff: "startswith s p \<longleftrightarrow> (\<exists>b. s = p @ b)"
proof
  assume "startswith s p"
  then have "s = p @ drop (length p) s"
    by (metis append_take_drop_id startswith_def)
  then show "\<exists>b. s = p @ b" ..
next
  assume "\<exists>b. s = p @ b"
  then show "startswith s p" by (auto simp: startswith_def)
qed

lemma str_in_iff: "str_in sub s \<longleftrightarrow> (\<exists>a b. s = a @ sub @ b)"
proof (induction s)
  case Nil
  then show ?case by simp
next
  case (Cons c cs)
  show ?case
  proof
    assume "str_in sub (c # cs)"
    then consider "startswith (c # cs) sub" | "str_in sub cs" by auto
    then show "\<exists>a b. c # cs = a @ sub @ b"
    proof cases
      case 1
      then obtain b where "c # cs = sub @ b" by (auto simp: startswith_iff)
      then have "c # cs = [] @ sub @ b" by simp
      then show ?thesis by blast
    next
      case 2
      with Cons.IH obtain a b where "cs = a @ sub @ b" by blast
      then have "c # cs = (c # a) @ sub @ b" by simp
      then show ?thesis by blast
    qed
  next
    assume "\<exists>a b. c # cs = a @ sub @ b"
    then obtain a b where ab: "c # cs = a @ sub @ b" by blast
    show "str_in sub (c # cs)"
    proof (cases a)
      case Nil
      with ab have "startswith (c # cs) sub" by (auto simp: startswith_iff)
      then show ?thesis by simp
    next
      case (Cons a0 as)
      with ab have "cs = as @ sub @ b" by simp
      with Cons.IH have "str_in sub cs" by blast
      then show ?thesis by simp
    qed
  qed
qed

lemma str_in_append: "str_in x s \<Longrightarrow> str_in x (a @ s @ b)"
proof -
  assume "str_in x s"
  then obtain p q where "s = p @ x @ q" by (auto simp: str_in_iff)
  then have "a @ s @ b = (a @ p) @ x @ (q @ b)" by simp
  then show ?thesis unfolding str_in_iff by blast
qed

lemma str_in_concat: "w \<in> set ws \<Longrightarrow> str_in w (concat ws)"
proof -
  assume "w \<in> set ws"
  then obtain as bs where "ws = as @ w # bs" by (auto dest: split_list)
  then have "concat ws = concat as @ w @ concat bs" by simp
  then show ?thesis unfolding str_in_iff by blast
qed

lemma str_in_trans: "str_in a b \<Longrightarrow> str_in b c \<Longrightarrow> str_in a c"
  by (metis append.right_neutral append_Nil str_in_append str_in_iff)

lemma str_in_prefix: "str_in (x @ y) s \<Longrightarrow> str_in x s"
proof -
  assume "str_in (x @ y) s"
  then obtain a b where "s = a @ (x @ y) @ b" by (auto simp: str_in_iff)
  then have "s = a @ x @ (y @ b)" by simp
  then show ?thesis unfolding str_in_iff by blast
qed

lemma str_in_segment: "str_in (concat (take n (drop k ws))) (concat ws)"
proof -
  have "ws = take k ws @ take n (drop k ws) @ drop n (drop k ws)"
    by (simp only: append_take_drop_id)
  then have "concat ws = concat (take k ws) @ concat (take n (drop k ws)) @ concat (drop n (drop k ws))"
    by (metis concat_append)
  then show ?thesis unfolding str_in_iff by blast
qed

section \<open>Properties of the orchestrator\<close>

lemma run_script_status:
  "status_recorded (subprocess_run env i ([py, p] @ as) (if inp \<noteq> [] then Some inp else None))
     (fst (run_script env i t py p as inp))"
  by (cases "subprocess_run env i ([py, p] @ as) (if inp \<noteq> [] then Some inp else None)")
     (simp_all add: run_script_def status_recorded_def Let_def)

lemma run_step_summary:
  "\<exists>e. run_summary (run_step env i step st) = run_summary st @ [e] \<and> step_recorded env i step e"
proof (cases "isfile env i (script_path env step)")
  case False
  then show ?thesis
    by (simp add: run_step_def case_prod_unfold step_recorded_def script_path_def Let_def)
next
  case True
  have "status_recorded (step_outcome env i step)
          (fst (run_script env i (tick st) (sys_executable env) (script_path env step) (sp_args step)
             (if sp_confirm step then sp_confirm_text step else [])))"
    using run_script_status [of env i "sys_executable env" "script_path env step" "sp_args step"
        "if sp_confirm step then sp_confirm_text step else []" "tick st"]
    by (cases "sp_confirm step"; cases "sp_confirm_text step = []")
       (simp_all add: step_outcome_def)
  with True show ?thesis
    by (simp add: run_step_def case_prod_unfold step_recorded_def script_path_def Let_def write_step_log_def)
qed

lemma run_step_launched:
  "launched (run_step env i step st) =
     launched st @ (if isfile env i (script_path env step) then [i] else [])"
  by (simp add: run_step_def case_prod_unfold script_path_def Let_def write_step_log_def)

lemma run_steps_summary:
  "\<exists>es. run_summary (run_steps env i steps st) = run_summary st @ es
        \<and> length es = length steps
        \<and> (\<forall>k < length steps. step_recorded env (i + k) (steps ! k) (es ! k))"
proof (induction steps arbitrary: i st)
  case Nil
  then show ?case by simp
next
  case (Cons step rest)
  obtain e where e: "run_summary (run_step env i step st) = run_summary st @ [e]"
    "step_recorded env i step e"
    using run_step_summary by blast
  obtain es where es: "run_summary (run_steps env (Suc i) rest (run_step env i step st))
       = run_summary (run_step env i step st) @ es" "length es = length rest"
     "\<forall>k < length rest. step_recorded env (Suc i + k) (rest ! k) (es ! k)"
    using Cons.IH by blast
  have "\<forall>k < length (step # rest). step_recorded env (i + k) ((step # rest) ! k) ((e # es) ! k)"
  proof (intro allI impI)
    fix k assume "k < length (step # rest)"
    then show "step_recorded env (i + k) ((step # rest) ! k) ((e # es) ! k)"
      using e(2) es(3) by (cases k) auto
  qed
  with e es show ?case
    by (intro exI [of _ "e # es"]) simp
qed

lemma run_steps_launched:
  "launched (run_steps env i steps st) =
     launched st @ map (\<lambda>k. i + k)
       (filter (\<lambda>k. isfile env (i + k) (script_path env (steps ! k))) [0..<length steps])"
proof (induction steps arbitrary: i st)
  case Nil
  then show ?case by simp
next
  case (Cons step rest)
  have upt: "[0..<length (step # rest)] = 0 # map Suc [0..<length rest]"
    by (simp add: upt_conv_Cons map_Suc_upt del: upt_Suc)
  show ?case
    by (simp only: run_steps.simps Cons.IH run_step_launched upt)
       (simp add: filter_map comp_def)
qed

lemma completed_snoc:
  "completed (es @ [e]) = completed es @ (case result e of None \<Rightarrow> [] | Some r \<Rightarrow> [r])"
  by (simp add: completed_def List.map_filter_def split: option.splits)

lemma run_script_times:
  "started_at (fst (run_script env i t py p as inp)) = isoformat env (clock env t)"
  "ended_at (fst (run_script env i t py p as inp)) = isoformat env (clock env (t + 1))"
  by (cases "subprocess_run env i ([py, p] @ as) (if inp \<noteq> [] then Some inp else None)";
      simp add: run_script_def Let_def)+

lemma run_step_timed:
  assumes "timed env st"
  shows "timed env (run_step env i step st)"
proof (cases "isfile env i (os_path_join (repo_root env) (sp_script step))")
  case False
  with assms show ?thesis
    by (simp add: run_step_def case_prod_unfold Let_def timed_def completed_snoc)
next
  case True
  let ?rs = "completed (run_summary st)"
  let ?res = "fst (run_script env i (tick st) (sys_executable env)
                (os_path_join (repo_root env) (sp_script step)) (sp_args step)
                (if sp_confirm step then sp_confirm_text step else []))"
  have t: "tick st = 3 * length ?rs + 1"
    using assms by (simp add: timed_def)
  have rs': "completed (run_summary (run_step env i step st)) = ?rs @ [?res]"
    using True by (simp add: run_step_def case_prod_unfold Let_def write_step_log_def completed_snoc)
  have tk: "tick (run_step env i step st) = tick st + 3"
    using True by (simp add: run_step_def case_prod_unfold Let_def write_step_log_def)
  have "started_at ((?rs @ [?res]) ! j) = isoformat env (clock env (3 * j + 1)) \<and>
        ended_at ((?rs @ [?res]) ! j) = isoformat env (clock env (3 * j + 2))"
    if "j < length (?rs @ [?res])" for j
  proof (cases "j < length ?rs")
    case True
    with assms show ?thesis by (simp add: timed_def nth_append)
  next
    case False
    with that have "j = length ?rs" by simp
    then show ?thesis
      using t by (simp add: nth_append run_script_times add.commute)
  qed
  with t tk rs' show ?thesis
    by (simp add: timed_def)
qed

lemma run_steps_timed: "timed env st \<Longrightarrow> timed env (run_steps env i steps st)"
  by (induction steps arbitrary: i st) (simp_all add: run_step_timed)

lemma run_steps_scripts:
  "map script (run_summary (run_steps env i steps st)) =
     map script (run_summary st) @ map sp_script steps"
proof (induction steps arbitrary: i st)
  case Nil
  then show ?case by simp
next
  case (Cons step rest)
  have "map script (run_summary (run_step env i step st)) =
          map script (run_summary st) @ [sp_script step]"
    by (simp add: run_step_def case_prod_unfold Let_def write_step_log_def)
  with Cons.IH show ?case by simp
qed

lemma log_fields_in_log:
  assumes "f \<in> set (log_fields env r)"
  shows "str_in f (concat (step_log_writes env r))"
proof -
  let ?ws = "step_log_writes env r"
  have seg: "str_in (concat (take n (drop k ?ws))) (concat ?ws)" for n k
    by (rule str_in_segment)
  have "str_in (''COMMAND: '' @ join '' '' (command r) @ nl) (concat ?ws)"
    using seg [of 1 0] by (simp add: step_log_writes_def)
  moreover have "str_in (''STARTED: '' @ started_at r @ nl) (concat ?ws)"
    using seg [of 1 1] by (simp add: step_log_writes_def)
  moreover have "str_in (''ENDED:   '' @ ended_at r @ nl) (concat ?ws)"
    using seg [of 1 2] by (simp add: step_log_writes_def)
  moreover have "str_in (''DURATION_SECONDS: '' @ fmt3 env (duration_seconds r) @ nl) (concat ?ws)"
    using seg [of 1 3] by (simp add: step_log_writes_def)
  moreover have "str_in (''STATUS: '' @ status r @ nl) (concat ?ws)"
    using seg [of 1 4] by (simp add: step_log_writes_def)
  moreover have "str_in (''RETURN_CODE: '' @ str_int (return_code r) @ nl) (concat ?ws)"
  proof -
    have "str_in ((''RETURN_CODE: '' @ str_int (return_code r) @ nl) @ nl) (concat ?ws)"
      using seg [of 1 5] by (simp add: step_log_writes_def)
    then show ?thesis by (rule str_in_prefix)
  qed
  moreover have "str_in (''===== STDOUT ====='' @ nl @ stdout r @ nl) (concat ?ws)"
  proof -
    have "str_in ((''===== STDOUT ====='' @ nl @ stdout r @ nl) @ nl @ ''===== STDERR ====='' @ nl)
            (concat ?ws)"
      using seg [of 3 6] by (simp add: step_log_writes_def)
    then show ?thesis by (rule str_in_prefix)
  qed
  moreover have "str_in (''===== STDERR ====='' @ nl @ stderr r @ nl) (concat ?ws)"
  proof -
    have "str_in (nl @ nl @ ''===== STDERR ====='' @ nl @ stderr r @ nl) (concat ?ws)"
      using seg [of 3 8] by (simp add: step_log_writes_def)
    then obtain a b where "concat ?ws = a @ (nl @ nl @ ''===== STDERR ====='' @ nl @ stderr r @ nl) @ b"
      unfolding str_in_iff by blast
    then have "concat ?ws = (a @ nl @ nl) @ (''===== STDERR ====='' @ nl @ stderr r @ nl) @ b"
      by simp
    then show ?thesis unfolding str_in_iff by blast
  qed
  ultimately show ?thesis
    using assms by (auto simp: log_fields_def)
qed

lemma report_fields_in_step:
  assumes "f \<in> set (report_fields env r)" "\<not> skipped e" "result e = Some r" "log_path e = Some lp"
  shows "str_in f (step_report env e)"
proof -
  let ?ws = "step_report_writes env e"
  have seg: "str_in (concat (take n (drop k ?ws))) (step_report env e)" for n k
    unfolding step_report_def by (rule str_in_segment)
  note d = step_report_writes_def assms(2-4)
  have "str_in (''Command: '' @ join '' '' (command r) @ nl) (step_report env e)"
    using seg [of 1 8] by (simp add: d)
  moreover have "str_in (''Started: '' @ started_at r @ nl) (step_report env e)"
    using seg [of 1 5] by (simp add: d)
  moreover have "str_in (''Ended:   '' @ ended_at r @ nl) (step_report env e)"
    using seg [of 1 6] by (simp add: d)
  moreover have "str_in (''Duration: '' @ fmt3 env (duration_seconds r) @ '' s'' @ nl) (step_report env e)"
    using seg [of 1 7] by (simp add: d)
  moreover have "str_in (''Status: '' @ status r @ '' (code '' @ str_int (return_code r) @ '')'' @ nl)
                   (step_report env e)"
    using seg [of 1 4] by (simp add: d)
  moreover have "str_in (''STDOUT'' @ nl @ ''~~~~~~'' @ nl @ stdout r @ nl) (step_report env e)"
  proof -
    have "str_in ((''STDOUT'' @ nl @ ''~~~~~~'' @ nl @ stdout r @ nl) @ nl) (step_report env e)"
      using seg [of 4 12] by (simp add: d)
    then show ?thesis by (rule str_in_prefix)
  qed
  moreover have "str_in (''STDERR'' @ nl @ ''~~~~~~'' @ nl @ stderr r @ nl) (step_report env e)"
  proof -
    have "str_in ((''STDERR'' @ nl @ ''~~~~~~'' @ nl @ stderr r @ nl) @ nl) (step_report env e)"
      using seg [of 4 16] by (simp add: d)
    then show ?thesis by (rule str_in_prefix)
  qed
  ultimately show ?thesis
    using assms(1) by (auto simp: report_fields_def)
qed

lemma step_in_report: "e \<in> set es \<Longrightarrow> str_in (step_report env e) (write_report env t es)"
proof -
  assume "e \<in> set es"
  then have "str_in (step_report env e) (concat (map (step_report env) es))"
    by (simp add: str_in_concat)
  then obtain a b where "concat (map (step_report env) es) = a @ step_report env e @ b"
    unfolding str_in_iff by blast
  then have "\<exists>a'. write_report env t es = a' @ step_report env e @ b"
    by (simp add: write_report_def)
  then show ?thesis unfolding str_in_iff by blast
qed

lemma run_step_reported:
  assumes "reported env st"
  shows "reported env (run_step env i step st)"
proof (cases "isfile env i (os_path_join (repo_root env) (sp_script step))")
  case False
  with assms show ?thesis
    by (simp add: run_step_def case_prod_unfold Let_def reported_def)
next
  case True
  define res where "res = fst (run_script env i (tick st) (sys_executable env)
                (os_path_join (repo_root env) (sp_script step)) (sp_args step)
                (if sp_confirm step then sp_confirm_text step else []))"
  define lp where "lp = os_path_join (os_path_join (repo_root env) ''logs'')
               (fst (splitext (basename (sp_script step))) @ ''.log'')"
  define new where "new = \<lparr>name = fst (splitext (basename (sp_script step))),
               script = sp_script step, args = sp_args step, auto_confirm = sp_confirm step,
               skipped = False, result = Some res, log_path = Some lp\<rparr>"
  define st' where "st' = run_step env i step st"
  have summary: "run_summary st' = run_summary st @ [new]"
    and logs: "log_writes st' = log_writes st @ [(lp, concat (step_log_writes env res))]"
    and rep: "report st' = Some (write_report env (tick st + 2) (run_summary st @ [new]))"
    using True
    by (simp_all add: st'_def new_def lp_def res_def run_step_def case_prod_unfold Let_def write_step_log_def)
  have new: "result new = Some res" "log_path new = Some lp"
    by (simp_all add: new_def)
  have "\<exists>res lp t es. result e = Some res \<and> log_path e = Some lp
           \<and> (lp, concat (step_log_writes env res)) \<in> set (log_writes st')
           \<and> report st' = Some (write_report env t es) \<and> e \<in> set es"
    if e: "e \<in> set (run_summary st')" "\<not> skipped e" for e
  proof (cases "e = new")
    case True
    have "result e = Some res \<and> log_path e = Some lp
           \<and> (lp, concat (step_log_writes env res)) \<in> set (log_writes st')
           \<and> report st' = Some (write_report env (tick st + 2) (run_summary st @ [new]))
           \<and> e \<in> set (run_summary st @ [new])"
      using True new logs rep by simp
    then show ?thesis by blast
  next
    case False
    with e summary have old: "e \<in> set (run_summary st)" by auto
    with assms e(2) obtain r l where
      "result e = Some r" "log_path e = Some l"
      "(l, concat (step_log_writes env r)) \<in> set (log_writes st)"
      unfolding reported_def by blast
    then have "result e = Some r \<and> log_path e = Some l
           \<and> (l, concat (step_log_writes env r)) \<in> set (log_writes st')
           \<and> report st' = Some (write_report env (tick st + 2) (run_summary st @ [new]))
           \<and> e \<in> set (run_summary st @ [new])"
      using logs rep old by simp
    then show ?thesis by blast
  qed
  then show ?thesis
    unfolding reported_def st'_def by blast
qed

lemma run_steps_reported: "reported env st \<Longrightarrow> reported env (run_steps env i steps st)"
  by (induction steps arbitrary: i st) (simp_all add: run_step_reported)

lemma demo_summary_skipped:
  "map skipped (run_summary (main demo_env demo_scripts None)) = [False, True, False, False]"
  by (simp add: main_def demo_scripts_def demo_env_def run_step_def case_prod_unfold Let_def spec_def write_step_log_def)

lemma demo_first_result:
  "map_option (\<lambda>r. (status r, return_code r, stdout r, stderr r))
     (result (run_summary (main demo_env demo_scripts None) ! 0))
   = Some (''failed'', 2, ''out'', ''err'')"
  by (simp add: main_def demo_scripts_def demo_env_def run_step_def case_prod_unfold Let_def spec_def
      write_step_log_def run_script_def)

lemma demo_completed: "length (completed (run_summary (main demo_env demo_scripts None))) = 3"
  by (simp add: main_def demo_scripts_def demo_env_def run_step_def case_prod_unfold Let_def spec_def write_step_log_def
     completed_def List.map_filter_def)

text \<open>
  Claim C1. For every step of the list whose script file exists, the run summary records
  status \<open>success\<close> exactly when the child's return code is 0, \<open>failed\<close> for every other
  return code and \<open>exception\<close> when the call raises. Whatever the status, the loop goes on:
  the summary has one entry for each step of the list, in order, and \<^verbatim>\<open>subprocess.run\<close> is
  called exactly once for each step whose script exists, and only for those.
\<close>

theorem pipeline_records_status_and_continues:
  "length (run_summary (main env scripts old)) = length scripts
   \<and> launched (main env scripts old) =
       filter (\<lambda>i. isfile env i (script_path env (scripts ! i))) [0..<length scripts]
   \<and> (\<forall>i < length scripts.
         step_recorded env i (scripts ! i) (run_summary (main env scripts old) ! i))"
proof -
  let ?init = "\<lparr>tick = 1, run_summary = [], log_writes = [], report = old, launched = [],
                trace = [Now 0]\<rparr>"
  obtain es where es: "run_summary (run_steps env 0 scripts ?init) = run_summary ?init @ es"
    "length es = length scripts"
    "\<forall>k < length scripts. step_recorded env (0 + k) (scripts ! k) (es ! k)"
    using run_steps_summary by blast
  have s: "run_summary (main env scripts old) = es"
    using es(1) by (simp add: main_def Let_def)
  have l: "launched (main env scripts old) =
       filter (\<lambda>i. isfile env i (script_path env (scripts ! i))) [0..<length scripts]"
    using run_steps_launched [of env 0 scripts ?init] by (simp add: main_def Let_def)
  from s l es(2,3) show ?thesis by simp
qed

theorem pipeline_records_status_and_continues_witness:
  "isfile demo_env 0 (script_path demo_env (demo_scripts ! 0))
   \<and> step_outcome demo_env 0 (demo_scripts ! 0) = Exited 2 ''out'' ''err''
   \<and> isfile demo_env 2 (script_path demo_env (demo_scripts ! 2))
   \<and> step_outcome demo_env 2 (demo_scripts ! 2) = Raised ''boom''
   \<and> length (run_summary (main demo_env demo_scripts None)) = 4
   \<and> launched (main demo_env demo_scripts None) = [0, 2, 3]
   \<and> (\<exists>r. result (run_summary (main demo_env demo_scripts None) ! 0) = Some r
          \<and> status r = ''failed'' \<and> return_code r = 2)
   \<and> (\<exists>r. result (run_summary (main demo_env demo_scripts None) ! 2) = Some r
          \<and> status r = ''exception'')
   \<and> (\<exists>r. result (run_summary (main demo_env demo_scripts None) ! 3) = Some r
          \<and> status r = ''success'' \<and> return_code r = 0)"
proof -
  note c = pipeline_records_status_and_continues [of demo_env demo_scripts None]
  have n: "length demo_scripts = 4" by (simp add: demo_scripts_def)
  have f: "isfile demo_env i p \<longleftrightarrow> i \<noteq> 1" for i p by (simp add: demo_env_def)
  have o0: "step_outcome demo_env 0 (demo_scripts ! 0) = Exited 2 ''out'' ''err''"
    and o2: "step_outcome demo_env 2 (demo_scripts ! 2) = Raised ''boom''"
    and o3: "step_outcome demo_env 3 (demo_scripts ! 3) = Exited 0 ''ok'' []"
    by (simp_all add: step_outcome_def demo_env_def)
  from c n have "step_recorded demo_env 0 (demo_scripts ! 0) (run_summary (main demo_env demo_scripts None) ! 0)"
    by simp
  then have r0: "\<exists>r. result (run_summary (main demo_env demo_scripts None) ! 0) = Some r
          \<and> status r = ''failed'' \<and> return_code r = 2"
    by (auto simp add: step_recorded_def f o0 status_recorded_def)
  from c n have "step_recorded demo_env 2 (demo_scripts ! 2) (run_summary (main demo_env demo_scripts None) ! 2)"
    by simp
  then have r2: "\<exists>r. result (run_summary (main demo_env demo_scripts None) ! 2) = Some r
          \<and> status r = ''exception''"
    by (auto simp add: step_recorded_def f o2 status_recorded_def)
  from c n have "step_recorded demo_env 3 (demo_scripts ! 3) (run_summary (main demo_env demo_scripts None) ! 3)"
    by simp
  then have r3: "\<exists>r. result (run_summary (main demo_env demo_scripts None) ! 3) = Some r
          \<and> status r = ''success'' \<and> return_code r = 0"
    by (auto simp add: step_recorded_def f o3 status_recorded_def)
  have l: "launched (main demo_env demo_scripts None) = [0, 2, 3]"
    using c by (simp add: n f upt_rec)
  from c n f o0 o2 r0 r2 r3 l show ?thesis by simp
qed

lemma run_events_snoc:
  "run_events env scripts (ids @ [i]) =
     run_events env scripts ids @ step_events env (length ids) i (scripts ! i)"
  by (simp add: run_events_def)

lemma run_script_events:
  "snd (run_script env i t py p as inp) =
     [Now t, Launch i ([py, p] @ as),
      Finished i (subprocess_run env i ([py, p] @ as) (if inp \<noteq> [] then Some inp else None)),
      Now (t + 1)]"
  by (cases "subprocess_run env i ([py, p] @ as) (if inp \<noteq> [] then Some inp else None)";
      simp add: run_script_def Let_def)

lemma run_step_traced:
  assumes "traced env scripts st"
  shows "traced env scripts (run_step env i (scripts ! i) st)"
proof (cases "isfile env i (os_path_join (repo_root env) (sp_script (scripts ! i)))")
  case False
  with assms show ?thesis
    by (simp add: run_step_def Let_def traced_def completed_snoc)
next
  case True
  let ?step = "scripts ! i"
  have oc: "subprocess_run env i
              ([sys_executable env, os_path_join (repo_root env) (sp_script ?step)] @ sp_args ?step)
              (if (if sp_confirm ?step then sp_confirm_text ?step else []) \<noteq> []
               then Some (if sp_confirm ?step then sp_confirm_text ?step else []) else None)
            = step_outcome env i ?step"
    by (cases "sp_confirm ?step"; cases "sp_confirm_text ?step = []")
       (simp_all add: step_outcome_def script_path_def)
  have t: "tick st = 3 * length (launched st) + 1"
    and c: "length (completed (run_summary st)) = length (launched st)"
    and tr: "trace st = Now 0 # run_events env scripts (launched st)"
    using assms by (simp_all add: traced_def)
  have "tick (run_step env i ?step st) = tick st + 3"
    and "launched (run_step env i ?step st) = launched st @ [i]"
    and "length (completed (run_summary (run_step env i ?step st))) =
           Suc (length (completed (run_summary st)))"
    and "trace (run_step env i ?step st) =
           trace st @ step_events env (length (launched st)) i ?step"
    using True t
    by (simp_all add: run_step_def case_prod_unfold Let_def write_step_log_def completed_snoc
        run_script_events step_outcome_def step_events_def script_path_def add.commute)
  with t c tr show ?thesis
    by (simp add: traced_def run_events_snoc)
qed

lemma run_steps_traced:
  assumes "traced env scripts st" and "steps = drop i scripts"
  shows "traced env scripts (run_steps env i steps st)"
  using assms
proof (induction steps arbitrary: i st)
  case Nil
  then show ?case by simp
next
  case (Cons step rest)
  from Cons.prems(2) have i: "i < length scripts"
    by (cases "i < length scripts") simp_all
  with Cons.prems(2) have step: "step = scripts ! i" and rest: "rest = drop (Suc i) scripts"
    by (simp_all add: Cons_nth_drop_Suc [symmetric])
  have "traced env scripts (run_step env i step st)"
    unfolding step using Cons.prems(1) by (rule run_step_traced)
  then have "traced env scripts (run_steps env (Suc i) rest (run_step env i step st))"
    using rest by (rule Cons.IH)
  then show ?case by simp
qed

text \<open>
  Claim C7. The steps appear in the run summary in the order of the list, and the children
  run strictly one at a time in that order: the events of a run are, for each existing
  script in turn, the reading of the start time, the launch of the child, its exit (or the
  raised call), the reading of the end time and the reading for the report, and nothing
  else. The time stamps of a result are these readings; the start of a later step is read
  after the end of an earlier one, so it is not earlier whenever the clock does not run
  backwards.
\<close>

theorem pipeline_runs_in_order:
  "map script (run_summary (main env scripts old)) = map sp_script scripts
   \<and> launched (main env scripts old) =
       filter (\<lambda>i. isfile env i (script_path env (scripts ! i))) [0..<length scripts]
   \<and> trace (main env scripts old) =
       Now 0 # run_events env scripts (launched (main env scripts old))
         @ [Now (3 * length (launched (main env scripts old)) + 1)]
   \<and> length (completed (run_summary (main env scripts old))) = length (launched (main env scripts old))
   \<and> (\<forall>j < length (completed (run_summary (main env scripts old))).
         started_at (completed (run_summary (main env scripts old)) ! j)
           = isoformat env (clock env (3 * j + 1))
       \<and> ended_at (completed (run_summary (main env scripts old)) ! j)
           = isoformat env (clock env (3 * j + 2)))
   \<and> ((\<forall>a b. a \<le> b \<longrightarrow> clock env a \<le> clock env b) \<longrightarrow>
        (\<forall>i j. i < j \<longrightarrow> clock env (3 * i + 2) \<le> clock env (3 * j + 1)))"
proof -
  let ?init = "\<lparr>tick = 1, run_summary = [], log_writes = [], report = old, launched = [],
                trace = [Now 0]\<rparr>"
  let ?st = "run_steps env 0 scripts ?init"
  have s: "run_summary (main env scripts old) = run_summary ?st"
    and l: "launched (main env scripts old) = launched ?st"
    and tr: "trace (main env scripts old) = trace ?st @ [Now (tick ?st)]"
    by (simp_all add: main_def Let_def)
  have "timed env ?init"
    by (simp add: timed_def completed_def List.map_filter_def)
  then have t: "timed env ?st"
    by (rule run_steps_timed)
  have "traced env scripts ?init"
    by (simp add: traced_def run_events_def completed_def List.map_filter_def)
  then have e: "traced env scripts ?st"
    by (rule run_steps_traced) simp
  have order: "map script (run_summary ?st) = map sp_script scripts"
    using run_steps_scripts [of env 0 scripts ?init] by simp
  have ran: "launched ?st =
          filter (\<lambda>k. isfile env k (script_path env (scripts ! k))) [0..<length scripts]"
    using run_steps_launched [of env 0 scripts ?init] by simp
  have mono: "clock env (3 * i + 2) \<le> clock env (3 * j + 1)"
    if "\<forall>a b. a \<le> b \<longrightarrow> clock env a \<le> clock env b" "i < j" for i j :: nat
  proof -
    from that(2) have "3 * i + 2 \<le> 3 * j + 1" by simp
    with that(1) show ?thesis by blast
  qed
  show ?thesis
    unfolding s l tr
    using order ran e t mono by (simp add: traced_def timed_def)
qed

theorem pipeline_runs_in_order_witness:
  "trace (main demo_env demo_scripts None) =
     [Now 0,
      Now 1, Launch 0 [''python'', ''/repo/a.py''], Finished 0 (Exited 2 ''out'' ''err''), Now 2, Now 3,
      Now 4, Launch 2 [''python'', ''/repo/c.py''], Finished 2 (Raised ''boom''), Now 5, Now 6,
      Now 7, Launch 3 [''python'', ''/repo/d.py''], Finished 3 (Exited 0 ''ok'' []), Now 8, Now 9,
      Now 10]
   \<and> map script (run_summary (main demo_env demo_scripts None)) = [''a.py'', ''b.py'', ''c.py'', ''d.py'']
   \<and> ended_at (completed (run_summary (main demo_env demo_scripts None)) ! 0)
        = isoformat demo_env (clock demo_env (3 * 0 + 2))
   \<and> started_at (completed (run_summary (main demo_env demo_scripts None)) ! 1)
        = isoformat demo_env (clock demo_env (3 * 1 + 1))
   \<and> clock demo_env (3 * 0 + 2) \<le> clock demo_env (3 * 1 + 1)"
proof -
  note c = pipeline_runs_in_order [of demo_env demo_scripts None]
  have ran: "launched (main demo_env demo_scripts None) = [0, 2, 3]"
    using c by (simp add: demo_scripts_def demo_env_def upt_rec)
  from c have "length (completed (run_summary (main demo_env demo_scripts None)))
                 = length (launched (main demo_env demo_scripts None))"
    by blast
  then have len: "length (completed (run_summary (main demo_env demo_scripts None))) = 3"
    by (simp add: ran)
  have m: "\<forall>a b. a \<le> b \<longrightarrow> clock demo_env a \<le> clock demo_env b"
    by (simp add: demo_env_def)
  from c have "trace (main demo_env demo_scripts None) =
       Now 0 # run_events demo_env demo_scripts (launched (main demo_env demo_scripts None))
         @ [Now (3 * length (launched (main demo_env demo_scripts None)) + 1)]"
    by blast
  then have "trace (main demo_env demo_scripts None) =
          Now 0 # run_events demo_env demo_scripts [0, 2, 3] @ [Now (3 * length [0::nat, 2, 3] + 1)]"
    by (simp only: ran)
  moreover have "Now 0 # run_events demo_env demo_scripts [0, 2, 3] @ [Now (3 * length [0::nat, 2, 3] + 1)] =
     [Now 0,
      Now 1, Launch 0 [''python'', ''/repo/a.py''], Finished 0 (Exited 2 ''out'' ''err''), Now 2, Now 3,
      Now 4, Launch 2 [''python'', ''/repo/c.py''], Finished 2 (Raised ''boom''), Now 5, Now 6,
      Now 7, Launch 3 [''python'', ''/repo/d.py''], Finished 3 (Exited 0 ''ok'' []), Now 8, Now 9,
      Now 10]"
    by (simp add: run_events_def step_events_def step_outcome_def script_path_def demo_scripts_def
        demo_env_def spec_def os_path_join_def startswith_def endswith_def upt_rec nl_def)
  ultimately have tr: "trace (main demo_env demo_scripts None) =
     [Now 0,
      Now 1, Launch 0 [''python'', ''/repo/a.py''], Finished 0 (Exited 2 ''out'' ''err''), Now 2, Now 3,
      Now 4, Launch 2 [''python'', ''/repo/c.py''], Finished 2 (Raised ''boom''), Now 5, Now 6,
      Now 7, Launch 3 [''python'', ''/repo/d.py''], Finished 3 (Exited 0 ''ok'' []), Now 8, Now 9,
      Now 10]"
    by (rule trans)
  from c len have "ended_at (completed (run_summary (main demo_env demo_scripts None)) ! 0)
        = isoformat demo_env (clock demo_env (3 * 0 + 2))
   \<and> started_at (completed (run_summary (main demo_env demo_scripts None)) ! 1)
        = isoformat demo_env (clock demo_env (3 * 1 + 1))"
    by simp
  moreover from c m have "clock demo_env (3 * 0 + 2) \<le> clock demo_env (3 * 1 + 1)"
    by simp
  moreover from c have "map script (run_summary (main demo_env demo_scripts None)) = [''a.py'', ''b.py'', ''c.py'', ''d.py'']"
    by (simp add: demo_scripts_def spec_def)
  ultimately show ?thesis
    using tr by simp
qed

text \<open>
  Claim C7, the time stamps as the claim words them: when the clock is set back during the
  run, the second step's recorded start time is earlier than the first step's recorded end
  time, although the second child was launched after the first had exited.
\<close>

theorem pipeline_start_stamp_before_previous_end:
  "ended_at (completed (run_summary (main back_env demo_scripts None)) ! 0)
     = isoformat back_env (clock back_env 2)
   \<and> started_at (completed (run_summary (main back_env demo_scripts None)) ! 1)
     = isoformat back_env (clock back_env 4)
   \<and> clock back_env 4 < clock back_env 2
   \<and> isoformat back_env (clock back_env 2) = ''8000''
   \<and> isoformat back_env (clock back_env 4) = ''6000''"
  by (simp add: main_def demo_scripts_def demo_env_def back_env_def run_step_def case_prod_unfold
      Let_def spec_def write_step_log_def run_script_def completed_def List.map_filter_def
      str_int_def dec.simps digit_def)


text \<open>
  Claim C3. For every step of the run summary that was not skipped, the report file and
  the log written for the step hold the command line, the start and the end time stamp, the
  duration, the status with the return code, and the captured standard output and standard
  error, each on its labelled line.
\<close>

theorem report_and_log_hold_record:
  assumes "e \<in> set (run_summary (main env scripts old))" and "\<not> skipped e"
  shows "\<exists>res lp rep log.
           result e = Some res \<and> log_path e = Some lp
         \<and> report (main env scripts old) = Some rep
         \<and> (lp, log) \<in> set (log_writes (main env scripts old))
         \<and> (\<forall>f \<in> set (report_fields env res). str_in f rep)
         \<and> (\<forall>f \<in> set (log_fields env res). str_in f log)"
proof -
  let ?init = "\<lparr>tick = 1, run_summary = [], log_writes = [], report = old, launched = [],
                trace = [Now 0]\<rparr>"
  let ?st = "run_steps env 0 scripts ?init"
  have "reported env ?init" by (simp add: reported_def)
  then have "reported env ?st" by (rule run_steps_reported)
  moreover have "e \<in> set (run_summary ?st)"
    using assms(1) by (simp add: main_def Let_def)
  ultimately obtain res lp t es where r:
    "result e = Some res" "log_path e = Some lp"
    "(lp, concat (step_log_writes env res)) \<in> set (log_writes ?st)"
    "report ?st = Some (write_report env t es)" "e \<in> set es"
    using assms(2) unfolding reported_def by blast
  let ?rep = "write_report env t es @
     final_summary env (clock env 0) (clock env (tick ?st)) (run_summary ?st)"
  have rep: "report (main env scripts old) = Some ?rep"
    using r(4) by (simp add: main_def Let_def)
  have logs: "(lp, concat (step_log_writes env res)) \<in> set (log_writes (main env scripts old))"
    using r(3) by (simp add: main_def Let_def)
  have "str_in f ?rep" if "f \<in> set (report_fields env res)" for f
  proof -
    have "str_in f (step_report env e)"
      using that assms(2) r(1,2) by (rule report_fields_in_step)
    moreover have "str_in (step_report env e) (write_report env t es)"
      using r(5) by (rule step_in_report)
    ultimately have "str_in f (write_report env t es)" by (rule str_in_trans)
    then show ?thesis
      using str_in_append [of f "write_report env t es" "[]"] by simp
  qed
  moreover have "str_in f (concat (step_log_writes env res))" if "f \<in> set (log_fields env res)" for f
    using that by (rule log_fields_in_log)
  ultimately show ?thesis
    using r(1,2) rep logs by blast
qed

theorem report_and_log_hold_record_witness:
  "\<exists>res lp rep log.
       result (run_summary (main demo_env demo_scripts None) ! 0) = Some res
     \<and> status res = ''failed''
     \<and> log_path (run_summary (main demo_env demo_scripts None) ! 0) = Some lp
     \<and> report (main demo_env demo_scripts None) = Some rep
     \<and> (lp, log) \<in> set (log_writes (main demo_env demo_scripts None))
     \<and> str_in (''Status: failed (code 2)'' @ nl) rep
     \<and> str_in (''STDOUT'' @ nl @ ''~~~~~~'' @ nl @ ''out'' @ nl) rep
     \<and> str_in (''RETURN_CODE: 2'' @ nl) log
     \<and> str_in (''===== STDERR ====='' @ nl @ ''err'' @ nl) log"
proof -
  let ?e = "run_summary (main demo_env demo_scripts None) ! 0"
  have len: "length (run_summary (main demo_env demo_scripts None)) = 4"
    using arg_cong [OF demo_summary_skipped, of length] by simp
  then have mem: "?e \<in> set (run_summary (main demo_env demo_scripts None))"
    by simp
  have "map skipped (run_summary (main demo_env demo_scripts None)) ! 0 = False"
    by (simp add: demo_summary_skipped)
  then have ns: "\<not> skipped ?e"
    using len by simp
  from report_and_log_hold_record [OF mem ns] obtain res lp rep log where r:
    "result ?e = Some res" "log_path ?e = Some lp"
    "report (main demo_env demo_scripts None) = Some rep"
    "(lp, log) \<in> set (log_writes (main demo_env demo_scripts None))"
    "\<forall>f \<in> set (report_fields demo_env res). str_in f rep"
    "\<forall>f \<in> set (log_fields demo_env res). str_in f log"
    by blast
  have v: "status res = ''failed''" "return_code res = 2" "stdout res = ''out''"
    "stderr res = ''err''"
    using r(1) demo_first_result by auto
  have two: "str_int 2 = ''2''"
    by (simp add: str_int_def dec.simps digit_def)
  have "str_in (''Status: failed (code 2)'' @ nl) rep"
    using r(5) by (simp add: report_fields_def v two)
  moreover have "str_in (''STDOUT'' @ nl @ ''~~~~~~'' @ nl @ ''out'' @ nl) rep"
    using r(5) by (simp add: report_fields_def v two)
  moreover have "str_in (''RETURN_CODE: 2'' @ nl) log"
    using r(6) by (simp add: log_fields_def v two)
  moreover have "str_in (''===== STDERR ====='' @ nl @ ''err'' @ nl) log"
    using r(6) by (simp add: log_fields_def v two)
  ultimately show ?thesis
    using r(1-4) v(1) by blast
qed

section \<open>Properties of the conversion\<close>

lemma save_Inr: "save lib d img p = Inr d' \<Longrightarrow> d' p = Some (Img img)"
  by (auto simp: save_def split: option.splits)

lemma convert_Inr:
  "convert lib img m = Inr img' \<Longrightarrow>
     width img' = width img \<and> height img' = height img
     \<and> map length (pixels img') = map length (pixels img)"
  by (auto simp: convert_def split: option.splits)

lemma image_open_Inr: "image_open lib d p = Inr img \<Longrightarrow> d p = Some (Img img)"
  by (auto simp: image_open_def split: option.splits content.splits)

lemma fromarray_normalize:
  "np_array lib img = Inr a \<Longrightarrow>
     width (fromarray (normalize lib a) m) = width img \<and>
     height (fromarray (normalize lib a) m) = height img \<and>
     map length (pixels (fromarray (normalize lib a) m)) = map length (pixels img)"
  by (auto simp: np_array_def fromarray_def normalize_def split: option.splits)

lemma convert_body_size:
  assumes "convert_body lib d tif_path png_path = Inr d'"
  shows "\<exists>src out. d tif_path = Some (Img src) \<and> d' png_path = Some (Img out)
           \<and> width out = width src \<and> height out = height src
           \<and> map length (pixels out) = map length (pixels src)"
proof -
  from assms obtain src where src: "image_open lib d tif_path = Inr src"
    by (auto simp: convert_body_def split: sum.splits)
  then have d: "d tif_path = Some (Img src)" by (rule image_open_Inr)
  from assms src obtain out where out: "save lib d out png_path = Inr d'"
    "width out = width src \<and> height out = height src
       \<and> map length (pixels out) = map length (pixels src)"
    by (auto simp: convert_body_def split: sum.splits if_splits
        dest: convert_Inr fromarray_normalize)
  from out(1) have "d' png_path = Some (Img out)" by (rule save_Inr)
  with d out(2) show ?thesis by blast
qed



lemma demo_convert:
  "fst (convert_tif_to_png demo_lib demo_disk [''raw'', ''a.tif''] [''raw'', ''a.png''])"
  by (simp add: convert_tif_to_png_def convert_body_def image_open_def demo_disk_def demo_lib_def
      np_array_def array_size_def save_def)

section \<open>Properties of the deletion and of the batch loops\<close>















text \<open>
  Claim C5. Whenever \<^verbatim>\<open>convert_tif_to_png\<close> returns \<^verbatim>\<open>True\<close>, the source opened as an image
  and the file at the output path is an image of the same width and height (and with rows
  of the same lengths), whatever the mode of the source: floating point, palette, alpha
  or converted to RGB.
\<close>

theorem convert_keeps_dimensions:
  assumes "convert_tif_to_png lib d tif_path png_path = (True, d', lines)"
  shows "\<exists>src out. d tif_path = Some (Img src) \<and> d' png_path = Some (Img out)
           \<and> width out = width src \<and> height out = height src
           \<and> map length (pixels out) = map length (pixels src)"
proof -
  from assms have "convert_body lib d tif_path png_path = Inr d'"
    by (auto simp: convert_tif_to_png_def split: sum.splits)
  then show ?thesis by (rule convert_body_size)
qed

theorem convert_keeps_dimensions_witness:
  "\<exists>d' lines out.
     convert_tif_to_png demo_lib demo_disk [''raw'', ''a.tif''] [''raw'', ''a.png''] = (True, d', lines)
     \<and> d' [''raw'', ''a.png''] = Some (Img out) \<and> width out = 3 \<and> height out = 2"
proof -
  obtain d' lines where r:
    "convert_tif_to_png demo_lib demo_disk [''raw'', ''a.tif''] [''raw'', ''a.png''] = (True, d', lines)"
    using demo_convert by (cases "convert_tif_to_png demo_lib demo_disk [''raw'', ''a.tif''] [''raw'', ''a.png'']") auto
  from convert_keeps_dimensions [OF r] obtain src out where
    "demo_disk [''raw'', ''a.tif''] = Some (Img src)" "d' [''raw'', ''a.png''] = Some (Img out)"
    "width out = width src" "height out = height src"
    by blast
  moreover from this(1) have "width src = 3" "height src = 2"
    by (auto simp: demo_disk_def)
  ultimately show ?thesis using r by auto
qed






lemma convert_item_same:
  assumes "disk st = disk st'" "success_count st = success_count st'"
    "error_count st = error_count st'" "errors st = errors st'"
  shows "disk (convert_item lib re del n i p st) = disk (convert_item lib re del n i p st')
       \<and> success_count (convert_item lib re del n i p st) = success_count (convert_item lib re del n i p st')
       \<and> error_count (convert_item lib re del n i p st) = error_count (convert_item lib re del n i p st')
       \<and> errors (convert_item lib re del n i p st) = errors (convert_item lib re del n i p st')"
  using assms by (simp add: convert_item_def Let_def split: prod.splits option.splits)

lemma convert_loop_same:
  assumes "disk st = disk st'" "success_count st = success_count st'"
    "error_count st = error_count st'" "errors st = errors st'"
  shows "disk (convert_loop lib re del n i ps st) = disk (convert_loop lib re del n i ps st')
       \<and> success_count (convert_loop lib re del n i ps st) = success_count (convert_loop lib re del n i ps st')
       \<and> error_count (convert_loop lib re del n i ps st) = error_count (convert_loop lib re del n i ps st')
       \<and> errors (convert_loop lib re del n i ps st) = errors (convert_loop lib re del n i ps st')"
  using assms
proof (induction ps arbitrary: i st st')
  case Nil
  then show ?case by simp
next
  case (Cons q ps)
  from convert_item_same [OF Cons.prems, of lib re del n i q]
  have "disk (convert_loop lib re del n (Suc i) ps (convert_item lib re del n i q st))
          = disk (convert_loop lib re del n (Suc i) ps (convert_item lib re del n i q st'))
       \<and> success_count (convert_loop lib re del n (Suc i) ps (convert_item lib re del n i q st))
          = success_count (convert_loop lib re del n (Suc i) ps (convert_item lib re del n i q st'))
       \<and> error_count (convert_loop lib re del n (Suc i) ps (convert_item lib re del n i q st))
          = error_count (convert_loop lib re del n (Suc i) ps (convert_item lib re del n i q st'))
       \<and> errors (convert_loop lib re del n (Suc i) ps (convert_item lib re del n i q st))
          = errors (convert_loop lib re del n (Suc i) ps (convert_item lib re del n i q st'))"
    by (intro Cons.IH) simp_all
  then show ?case by simp
qed














section \<open>Properties of the tiling\<close>





























section \<open>Properties of the flattening\<close>

lemma digit_inj: "a < 10 \<Longrightarrow> b < 10 \<Longrightarrow> digit a = digit b \<Longrightarrow> a = b"
proof -
  have *: "of_char (digit d) = 48 + d" if "d < 10" for d
  proof -
    from that have "d \<in> {0,1,2,3,4,5,6,7,8,9}" by auto
    then show ?thesis by (auto simp: digit_def)
  qed
  assume "a < 10" "b < 10" "digit a = digit b"
  then have "(of_char (digit a) :: nat) = of_char (digit b)" by simp
  with * \<open>a < 10\<close> \<open>b < 10\<close> show "a = b" by simp
qed

lemma dec_nonempty: "dec n \<noteq> []"
  by (subst dec.simps) simp

lemma dec_inj: "dec a = dec b \<Longrightarrow> a = b"
proof (induction a arbitrary: b rule: dec.induct)
  case (1 n)
  show ?case
  proof (cases "n < 10")
    case True
    with "1.prems" have "dec b = [digit n]" by (subst (asm) dec.simps) simp
    then have "b < 10" using dec_nonempty[of "b div 10"]
      by (subst (asm) dec.simps) (auto split: if_splits)
    with \<open>dec b = [digit n]\<close> have "digit b = digit n" by (subst (asm) dec.simps) simp
    with True \<open>b < 10\<close> show ?thesis using digit_inj by metis
  next
    case False
    then have dn: "dec n = dec (n div 10) @ [digit (n mod 10)]" by (subst dec.simps) simp
    have "\<not> b < 10"
    proof
      assume "b < 10"
      then have "dec b = [digit b]" by (subst dec.simps) simp
      with dn "1.prems" dec_nonempty[of "n div 10"] show False by auto
    qed
    then have db: "dec b = dec (b div 10) @ [digit (b mod 10)]" by (subst dec.simps) simp
    from dn db "1.prems" have e1: "dec (n div 10) = dec (b div 10)" and e2: "digit (n mod 10) = digit (b mod 10)"
      by auto
    from "1.IH"[OF False e1] have "n div 10 = b div 10" .
    moreover from e2 have "n mod 10 = b mod 10" using digit_inj[of "n mod 10" "b mod 10"] by simp
    ultimately show ?thesis by (metis div_mult_mod_eq)
  qed
qed

lemma numbered_inj: "inj (numbered target_dir stem suffix)"
proof (rule injI)
  fix a b assume "numbered target_dir stem suffix a = numbered target_dir stem suffix b"
  then have "dec a = dec b" by (simp add: numbered_def)
  then show "a = b" by (rule dec_inj)
qed

lemma free_target_bounded:
  assumes "\<forall>k \<ge> B. \<not> ex (numbered dir stem suf k)"
  shows "\<exists>p. free_target ex dir stem suf tf c = Some p \<and> \<not> ex p
            \<and> (p = tf \<or> (\<exists>k. p = numbered dir stem suf k))"
proof (induction "B - c" arbitrary: c tf rule: less_induct)
  case less
  show ?case
  proof (cases "ex tf")
    case False
    then show ?thesis by (subst free_target.simps) simp
  next
    case True
    then have step: "free_target ex dir stem suf tf c
                 = free_target ex dir stem suf (numbered dir stem suf c) (c + 1)"
      by (subst free_target.simps) (simp add: numbered_def)
    show ?thesis
    proof (cases "c < B")
      case True
      then have "B - (c + 1) < B - c" by simp
      from less [OF this, of "numbered dir stem suf c"] show ?thesis
        unfolding step by blast
    next
      case False
      with assms have "\<not> ex (numbered dir stem suf c)" by simp
      then have "free_target ex dir stem suf (numbered dir stem suf c) (c + 1)
                   = Some (numbered dir stem suf c)"
        by (subst free_target.simps) simp
      with \<open>\<not> ex (numbered dir stem suf c)\<close> show ?thesis
        unfolding step by blast
    qed
  qed
qed

lemma free_target_finite:
  assumes "finite {p. ex p}"
  shows "\<exists>p. free_target ex dir stem suf tf c = Some p \<and> \<not> ex p
            \<and> (p = tf \<or> (\<exists>k. p = numbered dir stem suf k))"
proof -
  have "finite (numbered dir stem suf -` {p. ex p})"
    using assms numbered_inj by (rule finite_vimageI)
  moreover have "{k. ex (numbered dir stem suf k)} = numbered dir stem suf -` {p. ex p}"
    by auto
  ultimately have "finite {k. ex (numbered dir stem suf k)}"
    by (simp only:)
  then obtain B where "\<forall>k \<in> {k. ex (numbered dir stem suf k)}. k < B"
    using finite_nat_set_iff_bounded by blast
  then have "\<forall>k \<ge> B. \<not> ex (numbered dir stem suf k)"
    by auto
  then show ?thesis by (rule free_target_bounded)
qed

lemma free_target_fresh:
  assumes "free_target ex dir stem suf tf c = Some p"
  shows "\<not> ex p"
  using assms
proof (rule free_target.raw_induct [rotated, where P = "\<lambda>ex dir stem suf tf c p. \<not> ex p"])
  fix f :: "(path \<Rightarrow> bool) \<Rightarrow> path \<Rightarrow> string \<Rightarrow> string \<Rightarrow> path \<Rightarrow> nat \<Rightarrow> path option"
    and ex' dir' stem' suf' tf' c' q
  assume ih: "\<And>e d s u t n y. f e d s u t n = Some y \<Longrightarrow> \<not> e y"
    and body: "(if ex' tf' then f ex' dir' stem' suf' (dir' @ [stem' @ ''_'' @ dec c' @ suf']) (c' + 1)
                else Some tf') = Some q"
  show "\<not> ex' q"
  proof (cases "ex' tf'")
    case True
    with body have "f ex' dir' stem' suf' (dir' @ [stem' @ ''_'' @ dec c' @ suf']) (c' + 1) = Some q"
      by simp
    then show ?thesis by (rule ih)
  next
    case False
    with body show ?thesis by simp
  qed
qed

lemma move_file_inv:
  assumes inv: "never_overwritten d base st"
    and src: "length base + 3 < length src"
    and dst: "length dst = length base + 2" "on_disk st dst = None"
  shows "never_overwritten d base (move_file mv st src dst)"
proof -
  have fin: "finite (dom (on_disk (move_file mv st src dst)))"
    using inv by (auto simp: never_overwritten_def move_file_def split: option.splits)
  have d_dst: "d dst = None"
  proof (rule ccontr)
    assume "d dst \<noteq> None"
    then obtain x where "d dst = Some x" by blast
    with inv have "on_disk st dst = Some x \<or> (on_disk st dst = None \<and> length base + 3 < length dst)"
      unfolding never_overwritten_def by blast
    with dst show False by simp
  qed
  have "on_disk (move_file mv st src dst) p = Some x
        \<or> (on_disk (move_file mv st src dst) p = None \<and> length base + 3 < length p)"
    if px: "d p = Some x" for p x
  proof -
    from inv px have old: "on_disk st p = Some x \<or> (on_disk st p = None \<and> length base + 3 < length p)"
      by (simp add: never_overwritten_def)
    from px d_dst have "p \<noteq> dst" by auto
    with old src show ?thesis
      by (auto simp: move_file_def split: option.splits)
  qed
  with fin show ?thesis by (simp add: never_overwritten_def)
qed

lemma flatten_file_inv:
  assumes inv: "never_overwritten d base st"
    and dirs: "finite {p. is_dir p}"
    and root: "length base + 3 \<le> length root"
    and target: "length target_dir = length base + 1"
  shows "\<exists>st'. flatten_file is_dir mv root target_dir file st = Some st'
              \<and> never_overwritten d base st'"
proof (cases "endswith (lower file) ''.png''")
  case False
  with inv show ?thesis by (simp add: flatten_file_def)
next
  case True
  define ex where "ex = (\<lambda>p. on_disk st p \<noteq> None \<or> is_dir p)"
  have "{p. ex p} = dom (on_disk st) \<union> {p. is_dir p}"
    by (auto simp: ex_def)
  with inv dirs have "finite {p. ex p}"
    by (simp add: never_overwritten_def)
  then obtain p where p: "free_target ex target_dir (path_stem file) (path_suffix file)
                            (target_dir @ [file]) 1 = Some p"
    "\<not> ex p"
    "p = target_dir @ [file] \<or> (\<exists>k. p = numbered target_dir (path_stem file) (path_suffix file) k)"
    using free_target_finite by blast
  from p(3) target have len: "length p = length base + 2"
    by (auto simp: numbered_def)
  from p(2) have free: "on_disk st p = None"
    by (simp add: ex_def)
  from root have src: "length base + 3 < length (root @ [file])" by simp
  have "never_overwritten d base (move_file mv st (root @ [file]) p)"
    using inv src len free by (rule move_file_inv)
  with True p(1) show ?thesis
    by (simp add: flatten_file_def Let_def ex_def)
qed

lemma flatten_files_inv:
  assumes "never_overwritten d base st" "finite {p. is_dir p}"
    "length base + 3 \<le> length root" "length target_dir = length base + 1"
  shows "\<exists>st'. flatten_files is_dir mv root target_dir fs st = Some st'
              \<and> never_overwritten d base st'"
  using assms(1)
proof (induction fs arbitrary: st)
  case Nil
  then show ?case by simp
next
  case (Cons f fs)
  from flatten_file_inv [OF Cons.prems assms(2-4)]
  obtain st1 where s1: "flatten_file is_dir mv root target_dir f st = Some st1"
    "never_overwritten d base st1"
    by blast
  from Cons.IH [OF s1(2)] s1(1) show ?case by simp
qed

lemma flatten_entry_inv:
  assumes "never_overwritten d base st" "finite {p. is_dir p}"
  shows "\<exists>st'. flatten_entry is_dir mv base entry st = Some st' \<and> never_overwritten d base st'"
proof -
  obtain root dirs fs where e: "entry = (root, dirs, fs)" by (cases entry)
  show ?thesis
  proof (cases "root \<noteq> base \<and> length (drop (length base) root) \<ge> 3
                 \<and> drop (length base) root ! 0 = drop (length base) root ! 1
                 \<and> drop (length base) root ! 2 = ''images''")
    case False
    with assms(1) show ?thesis
      by (auto simp: flatten_entry_def e Let_def)
  next
    case True
    then have "3 \<le> length root - length base" by simp
    then have "length base + 3 \<le> length root" by arith
    moreover have "length (base @ [drop (length base) root ! 0]) = length base + 1" by simp
    ultimately obtain st' where
      "flatten_files is_dir mv root (base @ [drop (length base) root ! 0]) fs st = Some st'"
      "never_overwritten d base st'"
      using flatten_files_inv [OF assms] by blast
    with True show ?thesis
      by (auto simp: flatten_entry_def e Let_def)
  qed
qed

lemma flatten_walk_inv:
  assumes "never_overwritten d base st" "finite {p. is_dir p}"
  shows "\<exists>st'. flatten_walk is_dir mv base walk st = Some st' \<and> never_overwritten d base st'"
  using assms(1)
proof (induction walk arbitrary: st)
  case Nil
  then show ?case by simp
next
  case (Cons entry walk)
  from flatten_entry_inv [OF Cons.prems assms(2)]
  obtain st1 where s1: "flatten_entry is_dir mv base entry st = Some st1"
    "never_overwritten d base st1"
    by blast
  from Cons.IH [OF s1(2)] s1(1) show ?case by simp
qed

lemma free_target_form:
  assumes "free_target ex dir stem suf tf c = Some p"
  shows "p = tf \<or> (\<exists>k \<ge> c. p = dir @ [stem @ ''_'' @ dec k @ suf])"
  using assms
proof (rule free_target.raw_induct [rotated, where
      P = "\<lambda>ex dir stem suf tf c p. p = tf \<or> (\<exists>k \<ge> c. p = dir @ [stem @ ''_'' @ dec k @ suf])"])
  fix f :: "(path \<Rightarrow> bool) \<Rightarrow> path \<Rightarrow> string \<Rightarrow> string \<Rightarrow> path \<Rightarrow> nat \<Rightarrow> path option"
    and ex' dir' stem' suf' tf' c' q
  assume ih: "\<And>e d s u t n y. f e d s u t n = Some y \<Longrightarrow>
                 y = t \<or> (\<exists>k \<ge> n. y = d @ [s @ ''_'' @ dec k @ u])"
    and body: "(if ex' tf' then f ex' dir' stem' suf' (dir' @ [stem' @ ''_'' @ dec c' @ suf']) (c' + 1)
                else Some tf') = Some q"
  show "q = tf' \<or> (\<exists>k \<ge> c'. q = dir' @ [stem' @ ''_'' @ dec k @ suf'])"
  proof (cases "ex' tf'")
    case True
    with body have "f ex' dir' stem' suf' (dir' @ [stem' @ ''_'' @ dec c' @ suf']) (c' + 1) = Some q"
      by simp
    from ih [OF this] have "q = dir' @ [stem' @ ''_'' @ dec c' @ suf']
        \<or> (\<exists>k \<ge> c' + 1. q = dir' @ [stem' @ ''_'' @ dec k @ suf'])" .
    then show ?thesis
    proof
      assume "q = dir' @ [stem' @ ''_'' @ dec c' @ suf']"
      then have "\<exists>k \<ge> c'. q = dir' @ [stem' @ ''_'' @ dec k @ suf']" by blast
      then show ?thesis ..
    next
      assume "\<exists>k \<ge> c' + 1. q = dir' @ [stem' @ ''_'' @ dec k @ suf']"
      then obtain k where "k \<ge> c' + 1" "q = dir' @ [stem' @ ''_'' @ dec k @ suf']" by blast
      then have "k \<ge> c' \<and> q = dir' @ [stem' @ ''_'' @ dec k @ suf']" by simp
      then have "\<exists>k \<ge> c'. q = dir' @ [stem' @ ''_'' @ dec k @ suf']" by blast
      then show ?thesis ..
    qed
  next
    case False
    with body show ?thesis by simp
  qed
qed

lemma crc_run:
  "map_option (\<lambda>st. (on_disk st [''Processed'', ''healthy'', ''A'', ''x_2.png''],
                       on_disk st [''Processed'', ''healthy'', ''A'', ''A'', ''images'', ''x.png''],
                       files_moved st))
     (flatten_directory no_dirs no_move_error crc_disk [''Processed'', ''healthy''] crc_tree)
     = Some (Some 3, None, 1)"
  by (simp add: flatten_directory_def crc_tree_def flatten_entry_def flatten_file_def
      endswith_def lower_def lower_char_def free_target.simps path_stem_def path_suffix_def
      crc_disk_def no_dirs_def move_file_def no_move_error_def dec.simps digit_def Let_def)

text \<open>
  Claim C10. On a finite disk \<^verbatim>\<open>flatten_directory\<close> ends, and it never overwrites a file:
  every file that was in a directory directly under the base (where the targets of the
  moves lie) before the run is there afterwards with its content unchanged, and any file
  at all is afterwards either unchanged or gone because it was moved. The conflict loop
  returns only a path that does not exist: the target itself, or the target's stem with a
  numbered suffix \<open>_k\<close> before the extension.
\<close>

theorem flatten_never_overwrites:
  assumes "finite (dom d)" and "finite {p. is_dir p}"
  shows "\<exists>st'. flatten_directory is_dir mv d base t = Some st'
     \<and> (\<forall>c f x. d (base @ [c, f]) = Some x \<longrightarrow> on_disk st' (base @ [c, f]) = Some x)
     \<and> (\<forall>p x. d p = Some x \<longrightarrow> on_disk st' p = Some x \<or> on_disk st' p = None)
     \<and> (free_target ex dir stem suf tf c = Some q \<longrightarrow>
            \<not> ex q \<and> (q = tf \<or> (\<exists>k \<ge> c. q = dir @ [stem @ ''_'' @ dec k @ suf])))"
proof -
  have "never_overwritten d base \<lparr>on_disk = d, files_moved = 0, moved_lines = []\<rparr>"
    using assms(1) by (simp add: never_overwritten_def)
  then obtain st' where st': "flatten_directory is_dir mv d base t = Some st'"
    "never_overwritten d base st'"
    unfolding flatten_directory_def using flatten_walk_inv assms(2) by blast
  have "on_disk st' (base @ [c, f]) = Some x" if "d (base @ [c, f]) = Some x" for c f x
    using st'(2) that by (fastforce simp: never_overwritten_def)
  moreover have "on_disk st' p = Some x \<or> on_disk st' p = None" if "d p = Some x" for p x
    using st'(2) that by (fastforce simp: never_overwritten_def)
  moreover have "free_target ex dir stem suf tf c = Some q \<longrightarrow>
            \<not> ex q \<and> (q = tf \<or> (\<exists>k \<ge> c. q = dir @ [stem @ ''_'' @ dec k @ suf]))"
    using free_target_fresh free_target_form by blast
  ultimately show ?thesis
    using st'(1) by blast
qed

theorem flatten_never_overwrites_witness:
  "\<exists>st'. flatten_directory no_dirs no_move_error crc_disk [''Processed'', ''healthy''] crc_tree = Some st'
     \<and> on_disk st' [''Processed'', ''healthy'', ''A'', ''x.png''] = Some 1
     \<and> on_disk st' [''Processed'', ''healthy'', ''A'', ''x_1.png''] = Some 2"
proof -
  have f1: "finite (dom crc_disk)" by (simp add: crc_disk_def)
  have f2: "finite {p. no_dirs p}" by (simp add: no_dirs_def)
  from flatten_never_overwrites [OF f1 f2, of no_move_error "[''Processed'', ''healthy'']" crc_tree]
  obtain st' where st':
    "flatten_directory no_dirs no_move_error crc_disk [''Processed'', ''healthy''] crc_tree = Some st'"
    "\<forall>c f x. crc_disk ([''Processed'', ''healthy''] @ [c, f]) = Some x
        \<longrightarrow> on_disk st' ([''Processed'', ''healthy''] @ [c, f]) = Some x"
    by blast
  have "crc_disk ([''Processed'', ''healthy''] @ [''A'', ''x.png'']) = Some 1"
    "crc_disk ([''Processed'', ''healthy''] @ [''A'', ''x_1.png'']) = Some 2"
    by (simp_all add: crc_disk_def)
  with st'(2) have "on_disk st' ([''Processed'', ''healthy''] @ [''A'', ''x.png'']) = Some 1"
    "on_disk st' ([''Processed'', ''healthy''] @ [''A'', ''x_1.png'']) = Some 2"
    by blast+
  with st'(1) show ?thesis by simp
qed

end
